theory Spec2Isabelle
  imports Main "HOL-Library.Word"
begin

unbundle bit_operations_syntax

section \<open>Data model of the compressed streams\<close>

text \<open>
  The embedding follows \<^verbatim>\<open>src/hotspot/share/code/compressedStream.cpp\<close>.
  \<^item> \<^verbatim>\<open>u_char\<close> and \<^verbatim>\<open>uint8_t\<close> are 8-bit words, \<^verbatim>\<open>juint\<close>, \<^verbatim>\<open>jint\<close> and
    \<^verbatim>\<open>uint32_t\<close> are 32-bit words, \<^verbatim>\<open>jlong\<close> is a 64-bit word. A \<^verbatim>\<open>jdouble\<close> is
    carried as its 64-bit pattern (\<^verbatim>\<open>jlong_cast\<close> and \<^verbatim>\<open>jdouble_cast\<close> are bit casts).
  \<^item> A byte operand of \<^verbatim>\<open><<\<close>, \<^verbatim>\<open>>>\<close>, \<^verbatim>\<open>&\<close> or \<^verbatim>\<open>|\<close> is promoted to \<^verbatim>\<open>int\<close>
    by C++; the model widens it to a 32-bit word with \<open>ucast\<close>, computes there, and
    narrows with \<open>ucast\<close> where the source stores into or passes a \<^verbatim>\<open>uint8_t\<close>.
  \<^item> \<^verbatim>\<open>_buffer\<close> is a raw pointer without a length: it is the memory seen from that
    pointer, a function from the index to the byte. The read stream never learns how
    many bytes are valid, and neither does the model.
  \<^item> \<^verbatim>\<open>_position\<close>, \<^verbatim>\<open>_size\<close> and \<^verbatim>\<open>byte_pos_\<close> are C++ \<^verbatim>\<open>int\<close>s, here \<open>int\<close>.
    The product \<^verbatim>\<open>_size * 2\<close> of \<^verbatim>\<open>grow\<close> is taken in 32 bits two's complement, where
    it can leave the range of \<^verbatim>\<open>int\<close>. The increments \<^verbatim>\<open>_position++\<close> and
    \<^verbatim>\<open>++byte_pos_\<close> are taken in the integers: a position is an index into a resource
    array and stays below \<open>2 ^ 31\<close>.
  \<^item> A shift count \<^verbatim>\<open>8 - byte_pos_\<close>, \<^verbatim>\<open>7 - byte_pos_\<close> or \<^verbatim>\<open>byte_pos_\<close> is converted
    with \<open>nat\<close>. It is not negative as long as the bit offset lies in \<open>[0, 8)\<close>, which
    every operation of the write stream maintains and every read keeps.
  \<^item> An index outside the allocated array is not an error of the model, as it is not
    one of the program ("out-of-bounds access rather than a detected error"): the
    buffer is total, and \<open>s_size\<close> only decides when \<^verbatim>\<open>grow\<close> runs.
  \<^item> Fields are named \<open>s_buffer\<close>, \<open>s_position\<close>, \<open>s_size\<close>, \<open>byte_pos\<close>,
    \<open>curr_byte\<close> and \<open>r_byte_pos\<close> (the reader's \<^verbatim>\<open>byte_pos_\<close>): a name cannot begin
    or end with an underscore.
\<close>

type_synonym u_char = "8 word"
type_synonym juint = "32 word"
type_synonym jint = "32 word"
type_synonym jlong = "64 word"
type_synonym jdouble = "64 word"

record CompressedStream =
  s_buffer :: "int \<Rightarrow> u_char"
  s_position :: int

record CompressedWriteStream = CompressedStream +
  s_size :: int

record CompressedSparseDataWriteStream = CompressedWriteStream +
  byte_pos :: int
  curr_byte :: u_char

record CompressedSparseDataReadStream = CompressedStream +
  r_byte_pos :: int

text \<open>
  \<^verbatim>\<open>NEW_RESOURCE_ARRAY(u_char, n)\<close> hands back memory whose contents the program does
  not choose. Every writing operation takes those contents as the parameter
  \<open>alloc\<close>: \<open>alloc n i\<close> is byte \<open>i\<close> of the fresh array of \<open>n\<close> bytes.
\<close>

type_synonym resource_array = "int \<Rightarrow> int \<Rightarrow> u_char"

section \<open>CompressedWriteStream\<close>

text \<open>
  Modelled from the spec: \<^verbatim>\<open>UNSIGNED5::MAX_LENGTH\<close>, declared in a header that is not
  among the sources. It is "the maximum possible width of one encoded scalar"; the
  comment above \<^verbatim>\<open>read_long\<close> gives 10 bytes for the two halves of a long, 5 for one.
\<close>

definition MAX_LENGTH :: int where
  "MAX_LENGTH = 5"

text \<open>Multiplication of two C++ \<^verbatim>\<open>int\<close>s, wrapping in 32 bits two's complement.\<close>

definition int_mul :: "int \<Rightarrow> int \<Rightarrow> int" where
  "int_mul a b = signed_take_bit 31 (a * b)"

text \<open>The constructor \<^verbatim>\<open>CompressedWriteStream(int initial_size)\<close>.\<close>

definition CompressedWriteStream_new :: "resource_array \<Rightarrow> int \<Rightarrow> CompressedWriteStream" where
  "CompressedWriteStream_new alloc initial_size =
     \<lparr>s_buffer = alloc initial_size, s_position = 0, s_size = initial_size\<rparr>"

text \<open>
  \<^verbatim>\<open>memcpy(_new_buffer, _buffer, _position)\<close> copies the bytes at the indices
  \<open>0 \<le> i < _position\<close>; every other byte of the new buffer is what the allocation
  holds.
\<close>

definition grow :: "resource_array \<Rightarrow> 'a CompressedWriteStream_scheme \<Rightarrow> 'a CompressedWriteStream_scheme" where
  "grow alloc s =
     (let nsize = int_mul (s_size s) 2;
          min_expansion = MAX_LENGTH;
          nsize = (if nsize < min_expansion * 2 then min_expansion * 2 else nsize);
          new_buffer = alloc nsize;
          new_buffer = (\<lambda>i. if 0 \<le> i \<and> i < s_position s then s_buffer s i else new_buffer i)
      in s\<lparr>s_buffer := new_buffer, s_size := nsize\<rparr>)"

text \<open>
  Modelled from the spec: \<^verbatim>\<open>CompressedWriteStream::full\<close>, \<^verbatim>\<open>store\<close> and \<^verbatim>\<open>write\<close>,
  declared in \<^verbatim>\<open>compressedStream.hpp\<close>, which is not among the sources. A write with
  no room left (\<open>position \<ge> capacity\<close>) first grows the buffer, then stores the byte at
  \<open>position\<close> and advances \<open>position\<close> by one. \<^verbatim>\<open>write\<close> is named
  \<open>write_u_char\<close> here, after its parameter type.
\<close>

definition full :: "'a CompressedWriteStream_scheme \<Rightarrow> bool" where
  "full s = (s_position s \<ge> s_size s)"

definition store :: "'a CompressedWriteStream_scheme \<Rightarrow> u_char \<Rightarrow> 'a CompressedWriteStream_scheme" where
  "store s b = s\<lparr>s_buffer := (s_buffer s)(s_position s := b), s_position := s_position s + 1\<rparr>"

definition write_u_char :: "resource_array \<Rightarrow> 'a CompressedWriteStream_scheme \<Rightarrow> u_char \<Rightarrow> 'a CompressedWriteStream_scheme" where
  "write_u_char alloc s b = store (if full s then grow alloc s else s) b"

section \<open>CompressedSparseDataWriteStream\<close>

text \<open>
  Modelled from the spec: the constructor of the bit-packed write stream, declared in
  \<^verbatim>\<open>compressedStream.hpp\<close>: a \<^verbatim>\<open>CompressedWriteStream\<close> whose bit cursor starts
  byte-aligned with an empty accumulator.
\<close>

definition CompressedSparseDataWriteStream_new :: "resource_array \<Rightarrow> int \<Rightarrow> CompressedSparseDataWriteStream" where
  "CompressedSparseDataWriteStream_new alloc initial_size =
     \<lparr>s_buffer = alloc initial_size, s_position = 0, s_size = initial_size,
      byte_pos = 0, curr_byte = 0\<rparr>"

text \<open>\<^verbatim>\<open>position()\<close> returns \<^verbatim>\<open>_position\<close> and the stream it leaves behind.\<close>

definition position :: "resource_array \<Rightarrow> CompressedSparseDataWriteStream \<Rightarrow> int \<times> CompressedSparseDataWriteStream" where
  "position alloc s =
     (if byte_pos s = 0 then (s_position s, s)
      else
        let s = write_u_char alloc s
                  (ucast (push_bit (nat (8 - byte_pos s)) (ucast (curr_byte s) :: jint)));
            s = s\<lparr>curr_byte := 0\<rparr>;
            s = s\<lparr>byte_pos := 0\<rparr>
        in (s_position s, s))"

definition write_zero :: "resource_array \<Rightarrow> CompressedSparseDataWriteStream \<Rightarrow> CompressedSparseDataWriteStream" where
  "write_zero alloc s =
     (let s = s\<lparr>curr_byte := ucast (push_bit 1 (ucast (curr_byte s) :: jint))\<rparr>;
          s = s\<lparr>byte_pos := byte_pos s + 1\<rparr>
      in if byte_pos s = 8 then
           let s = write_u_char alloc s (curr_byte s);
               s = s\<lparr>curr_byte := 0\<rparr>
           in s\<lparr>byte_pos := 0\<rparr>
         else s)"

definition write_byte_impl :: "resource_array \<Rightarrow> CompressedSparseDataWriteStream \<Rightarrow> u_char \<Rightarrow> CompressedSparseDataWriteStream" where
  "write_byte_impl alloc s b =
     (let s' = write_u_char alloc s
                 (ucast (push_bit (nat (8 - byte_pos s)) (ucast (curr_byte s) :: jint)
                         OR drop_bit (nat (byte_pos s)) (ucast b :: jint)))
      in s'\<lparr>curr_byte := ucast (drop_bit (nat (8 - byte_pos s')) (0xff :: jint) AND ucast b)\<rparr>)"

text \<open>The loop \<^verbatim>\<open>for (int i = 5; i > 0; i--)\<close> of \<^verbatim>\<open>write_int\<close>.\<close>

function write_int_loop :: "resource_array \<Rightarrow> CompressedSparseDataWriteStream \<Rightarrow> juint \<Rightarrow> int \<Rightarrow> CompressedSparseDataWriteStream" where
  "write_int_loop alloc s val i =
     (if i > 0 then
        let v = drop_bit (nat (6 * i)) val;
            s = (if v \<noteq> 0 then write_byte_impl alloc s (ucast (0xC0 OR (v AND 0x3f))) else s)
        in write_int_loop alloc s val (i - 1)
      else s)"
  by pat_completeness auto
termination
  by (relation "measure (\<lambda>(alloc, s, val, i). nat i)") auto

definition write_int :: "resource_array \<Rightarrow> CompressedSparseDataWriteStream \<Rightarrow> juint \<Rightarrow> CompressedSparseDataWriteStream" where
  "write_int alloc s val =
     (if val = 0 then write_zero alloc s
      else
        let s = write_int_loop alloc s val 5
        in write_byte_impl alloc s (ucast (0x80 OR (val AND 0x3f))))"

section \<open>CompressedSparseDataReadStream\<close>

text \<open>
  Modelled from the spec: the constructor of the bit-packed read stream, declared in
  \<^verbatim>\<open>compressedStream.hpp\<close>: "constructed over \<open>(buffer, start_offset)\<close>", byte-aligned.
\<close>

definition CompressedSparseDataReadStream_new :: "(int \<Rightarrow> u_char) \<Rightarrow> int \<Rightarrow> CompressedSparseDataReadStream" where
  "CompressedSparseDataReadStream_new buf pos = \<lparr>s_buffer = buf, s_position = pos, r_byte_pos = 0\<rparr>"

definition read_zero :: "CompressedSparseDataReadStream \<Rightarrow> bool \<times> CompressedSparseDataReadStream" where
  "read_zero r =
     (if (ucast (s_buffer r (s_position r)) :: jint) AND push_bit (nat (7 - r_byte_pos r)) 1 \<noteq> 0
      then (False, r)
      else
        let r = r\<lparr>r_byte_pos := r_byte_pos r + 1\<rparr>
        in if r_byte_pos r = 8 then
             let r = r\<lparr>s_position := s_position r + 1\<rparr>
             in (True, r\<lparr>r_byte_pos := 0\<rparr>)
           else (True, r))"

definition read_byte_impl :: "CompressedSparseDataReadStream \<Rightarrow> u_char \<times> CompressedSparseDataReadStream" where
  "read_byte_impl r =
     (let b1 = (ucast (push_bit (nat (r_byte_pos r)) (ucast (s_buffer r (s_position r)) :: jint)) :: u_char);
          r = r\<lparr>s_position := s_position r + 1\<rparr>;
          b2 = (ucast (drop_bit (nat (8 - r_byte_pos r)) (ucast (s_buffer r (s_position r)) :: jint)) :: u_char)
      in (ucast ((ucast b1 :: jint) OR ucast b2), r))"

text \<open>
  The loop \<^verbatim>\<open>while (true)\<close> of \<^verbatim>\<open>read_int\<close> ends only at a group whose marker is
  \<open>10\<close>; on a buffer without one it never returns, and the model's value is \<open>None\<close>.
\<close>

partial_function (option) read_int_loop :: "CompressedSparseDataReadStream \<Rightarrow> juint \<Rightarrow> (jint \<times> CompressedSparseDataReadStream) option" where
  "read_int_loop r result =
     (case read_byte_impl r of (b, r) \<Rightarrow>
        let result = push_bit 6 result OR (ucast b AND 0x3f)
        in if (ucast b :: jint) AND 0xC0 = 0x80 then Some (result, r)
           else read_int_loop r result)"

declare read_int_loop.simps [code]

definition read_int :: "CompressedSparseDataReadStream \<Rightarrow> (jint \<times> CompressedSparseDataReadStream) option" where
  "read_int r =
     (case read_zero r of (z, r) \<Rightarrow>
        if z then Some (0, r) else read_int_loop r 0)"

section \<open>Derived encodings of the byte-aligned streams\<close>

text \<open>
  \<^verbatim>\<open>CompressedWriteStream::write_int\<close> and \<^verbatim>\<open>CompressedReadStream::read_int\<close> are defined in
  \<^verbatim>\<open>compressedStream.hpp\<close> on top of \<^verbatim>\<open>UNSIGNED5\<close>; neither is among the sources. So are
  \<^verbatim>\<open>UNSIGNED5::encode_sign\<close> and \<^verbatim>\<open>decode_sign\<close>, and \<^verbatim>\<open>reverse_bits\<close> of
  \<^verbatim>\<open>moveBits.hpp\<close>. The functions of \<^verbatim>\<open>compressedStream.cpp\<close> that use them take them as
  the parameters \<open>write_uint\<close>, \<open>read_uint\<close>, \<open>encode_sign\<close>, \<open>decode_sign\<close> and
  \<open>reverse_bits\<close>. A \<^verbatim>\<open>CompressedReadStream\<close> has no field of its own: it is a
  \<open>CompressedStream\<close>.
\<close>

type_synonym write_uint_fn = "CompressedWriteStream \<Rightarrow> juint \<Rightarrow> CompressedWriteStream"
type_synonym read_uint_fn = "CompressedStream \<Rightarrow> juint \<times> CompressedStream"

text \<open>
  Modelled from the spec: \<^verbatim>\<open>low\<close>, \<^verbatim>\<open>high\<close> and \<^verbatim>\<open>jlong_from\<close> of
  \<^verbatim>\<open>globalDefinitions.hpp\<close>, which is not among the sources: the "low and high 32-bit
  halves (two's-complement halves, not independently signed)" of a 64-bit value, and the
  value that "reassembles the 64-bit pattern high:low". \<^verbatim>\<open>jlong_cast\<close> and
  \<^verbatim>\<open>jdouble_cast\<close> reinterpret the same 64 bits.
\<close>

definition low :: "jlong \<Rightarrow> jint" where
  "low value = ucast value"

definition high :: "jlong \<Rightarrow> jint" where
  "high value = ucast (drop_bit 32 value)"

definition jlong_from :: "jint \<Rightarrow> jint \<Rightarrow> jlong" where
  "jlong_from h l = push_bit 32 (ucast h) OR ucast l"

definition jlong_cast :: "jdouble \<Rightarrow> jlong" where
  "jlong_cast x = x"

definition jdouble_cast :: "jlong \<Rightarrow> jdouble" where
  "jdouble_cast x = x"

definition read_signed_int :: "(juint \<Rightarrow> jint) \<Rightarrow> read_uint_fn \<Rightarrow> CompressedStream \<Rightarrow> jint \<times> CompressedStream" where
  "read_signed_int decode_sign read_uint r =
     (case read_uint r of (v, r) \<Rightarrow> (decode_sign v, r))"

definition read_double :: "read_uint_fn \<Rightarrow> (juint \<Rightarrow> juint) \<Rightarrow> CompressedStream \<Rightarrow> jdouble \<times> CompressedStream" where
  "read_double read_uint reverse_bits r =
     (case read_uint r of (rh, r) \<Rightarrow>
      case read_uint r of (rl, r) \<Rightarrow>
        let h = reverse_bits rh;
            l = reverse_bits rl
        in (jdouble_cast (jlong_from h l), r))"

definition read_long :: "(juint \<Rightarrow> jint) \<Rightarrow> read_uint_fn \<Rightarrow> CompressedStream \<Rightarrow> jlong \<times> CompressedStream" where
  "read_long decode_sign read_uint r =
     (case read_signed_int decode_sign read_uint r of (low', r) \<Rightarrow>
      case read_signed_int decode_sign read_uint r of (high', r) \<Rightarrow>
        (jlong_from high' low', r))"

text \<open>
  The two \<^verbatim>\<open>assert\<close>s of \<^verbatim>\<open>write_double\<close> stop a debug build; the model returns
  \<open>None\<close> where one of them fails.
\<close>

definition write_double :: "write_uint_fn \<Rightarrow> (juint \<Rightarrow> juint) \<Rightarrow> CompressedWriteStream \<Rightarrow> jdouble \<Rightarrow> CompressedWriteStream option" where
  "write_double write_uint reverse_bits s value =
     (let h = high (jlong_cast value);
          l = low (jlong_cast value);
          rh = reverse_bits h;
          rl = reverse_bits l
      in if h \<noteq> reverse_bits rh then None
         else if l \<noteq> reverse_bits rl then None
         else
           let s = write_uint s rh
           in Some (write_uint s rl))"

text \<open>
  Modelled from the spec: \<^verbatim>\<open>CompressedWriteStream::write_signed_int\<close>, defined in
  \<^verbatim>\<open>compressedStream.hpp\<close>, which is not among the sources: "encode =
  \<open>varint_encode(sign_fold(v))\<close>".
\<close>

definition write_signed_int :: "(jint \<Rightarrow> juint) \<Rightarrow> write_uint_fn \<Rightarrow> CompressedWriteStream \<Rightarrow> jint \<Rightarrow> CompressedWriteStream" where
  "write_signed_int encode_sign write_uint s value = write_uint s (encode_sign value)"

definition write_long :: "(jint \<Rightarrow> juint) \<Rightarrow> write_uint_fn \<Rightarrow> CompressedWriteStream \<Rightarrow> jlong \<Rightarrow> CompressedWriteStream" where
  "write_long encode_sign write_uint s value =
     (let s = write_signed_int encode_sign write_uint s (low value)
      in write_signed_int encode_sign write_uint s (high value))"

section \<open>Drivers and predicates of the statements\<close>

text \<open>
  Lists of writes and reads as a caller issues them, the invariant of the bit cursor,
  the groups of one value, and what the derived encodings assume of the unsigned
  primitive.
\<close>

text \<open>Writing a list of values in order, as a caller's sequence of \<^verbatim>\<open>write_int\<close> calls.\<close>

fun write_ints :: "resource_array \<Rightarrow> CompressedSparseDataWriteStream \<Rightarrow> juint list \<Rightarrow> CompressedSparseDataWriteStream" where
  "write_ints alloc s [] = s"
| "write_ints alloc s (v # vs) = write_ints alloc (write_int alloc s v) vs"

text \<open>Reading \<open>n\<close> values in order, as a caller's sequence of \<^verbatim>\<open>read_int\<close> calls; \<open>None\<close> as
  soon as one of them does not return.\<close>

fun read_ints :: "nat \<Rightarrow> CompressedSparseDataReadStream \<Rightarrow> (jint list \<times> CompressedSparseDataReadStream) option" where
  "read_ints 0 r = Some ([], r)"
| "read_ints (Suc n) r =
     (case read_int r of
        None \<Rightarrow> None
      | Some (v, r) \<Rightarrow>
          (case read_ints n r of
             None \<Rightarrow> None
           | Some (vs, r) \<Rightarrow> Some (v # vs, r)))"

text \<open>The bit-cursor invariant of the write stream: the offset is in \<open>[0, 8)\<close> and the
  accumulator holds only the \<open>byte_pos\<close> pending bits.\<close>

definition bit_cursor_inv :: "CompressedSparseDataWriteStream \<Rightarrow> bool" where
  "bit_cursor_inv s =
     (0 \<le> byte_pos s \<and> byte_pos s < 8 \<and> unat (curr_byte s) < 2 ^ nat (byte_pos s))"

text \<open>The non-final groups \<^verbatim>\<open>write_int\<close> emits for \<open>i = n, ..., 1\<close>.\<close>

primrec int_groups_from :: "juint \<Rightarrow> nat \<Rightarrow> u_char list" where
  "int_groups_from val 0 = []"
| "int_groups_from val (Suc n) =
     (if drop_bit (6 * Suc n) val \<noteq> 0
      then [ucast (0xC0 OR (drop_bit (6 * Suc n) val AND 0x3f))] else [])
     @ int_groups_from val n"

text \<open>All the groups \<^verbatim>\<open>write_int\<close> emits for a non-zero value, the final group last.\<close>

definition int_groups :: "juint \<Rightarrow> u_char list" where
  "int_groups val = int_groups_from val 5 @ [ucast (0x80 OR (val AND 0x3f))]"

text \<open>A full stream of \<open>2 ^ 30\<close> bytes: its capacity has doubled up to \<open>2 ^ 30\<close> and every
  byte of it is written.\<close>

definition huge_stream :: CompressedWriteStream where
  "huge_stream = \<lparr>s_buffer = (\<lambda>i. 0), s_position = 1073741824, s_size = 1073741824\<rparr>"

text \<open>What the derived encodings assume of the unsigned primitive (self-delimiting, bit-exact
  round trip): from a position \<open>\<ge> 0\<close>, \<open>write_uint\<close> does not move the position back and
  keeps the bytes before it; and \<open>read_uint\<close>, on any buffer that holds the bytes just
  written, returns the value and stops where the writer stopped.\<close>

definition unsigned_round_trip :: "write_uint_fn \<Rightarrow> read_uint_fn \<Rightarrow> bool" where
  "unsigned_round_trip write_uint read_uint =
     (\<forall>s v. 0 \<le> s_position s \<longrightarrow>
        s_position s \<le> s_position (write_uint s v)
      \<and> (\<forall>i. 0 \<le> i \<and> i < s_position s \<longrightarrow> s_buffer (write_uint s v) i = s_buffer s i)
      \<and> (\<forall>buf. (\<forall>i. s_position s \<le> i \<and> i < s_position (write_uint s v)
                     \<longrightarrow> buf i = s_buffer (write_uint s v) i)
             \<longrightarrow> read_uint \<lparr>s_buffer = buf, s_position = s_position s\<rparr>
                   = (v, \<lparr>s_buffer = buf, s_position = s_position (write_uint s v)\<rparr>)))"

section \<open>Buffers as bit streams\<close>

text \<open>
  The proofs read a buffer as a stream of bits. None of these definitions occurs in
  the statement of a claim.
\<close>

text \<open>Bit \<open>k\<close> of a buffer read as a bit stream, the most significant bit of each byte first.\<close>

definition stream_bit :: "(int \<Rightarrow> u_char) \<Rightarrow> int \<Rightarrow> bool" where
  "stream_bit buf k = bit (buf (k div 8)) (nat (7 - k mod 8))"

text \<open>The eight bits of a byte, most significant first.\<close>

definition bits8 :: "u_char \<Rightarrow> bool list" where
  "bits8 b = map (\<lambda>j. bit b (7 - j)) [0..<8]"

text \<open>The number of bits a writer is ahead of index 0: whole bytes and pending bits.\<close>

definition wend :: "CompressedSparseDataWriteStream \<Rightarrow> int" where
  "wend s = 8 * s_position s + byte_pos s"

text \<open>Bit \<open>k\<close> of what a writer has produced: a bit of the buffer, or one of the
  \<open>byte_pos\<close> pending low bits of \<open>curr_byte\<close>.\<close>

definition wbit :: "CompressedSparseDataWriteStream \<Rightarrow> int \<Rightarrow> bool" where
  "wbit s k = (if k < 8 * s_position s then stream_bit (s_buffer s) k
               else bit (curr_byte s) (nat (wend s - 1 - k)))"

text \<open>The writer is at a position \<open>\<ge> 0\<close> with its bit offset in \<open>[0, 8)\<close>.\<close>

definition winv :: "CompressedSparseDataWriteStream \<Rightarrow> bool" where
  "winv s = (0 \<le> s_position s \<and> 0 \<le> byte_pos s \<and> byte_pos s < 8)"

text \<open>\<open>appended s s' xs\<close>: the stream of \<open>s'\<close> is the stream of \<open>s\<close> followed by the bits \<open>xs\<close>.\<close>

definition appended :: "CompressedSparseDataWriteStream \<Rightarrow> CompressedSparseDataWriteStream \<Rightarrow> bool list \<Rightarrow> bool" where
  "appended s s' xs = (winv s' \<and> wend s' = wend s + int (length xs) \<and>
     (\<forall>k. 0 \<le> k \<and> k < wend s \<longrightarrow> wbit s' k = wbit s k) \<and>
     (\<forall>j < length xs. wbit s' (wend s + int j) = xs ! j))"

text \<open>The zero bits \<^verbatim>\<open>position()\<close> adds to complete the pending byte.\<close>

definition padding :: "int \<Rightarrow> bool list" where
  "padding bp = (if bp = 0 then [] else replicate (nat (8 - bp)) False)"

text \<open>The bits of one encoded value: a single 0, or the groups of the value.\<close>

definition int_bits :: "juint \<Rightarrow> bool list" where
  "int_bits val = (if val = 0 then [False] else concat (map bits8 (int_groups val)))"

text \<open>The reader's bit cursor.\<close>

definition rcur :: "CompressedSparseDataReadStream \<Rightarrow> int" where
  "rcur r = 8 * s_position r + r_byte_pos r"

text \<open>The bit stream of a buffer from bit \<open>c\<close> on starts with \<open>xs\<close>.\<close>

definition has_prefix :: "(int \<Rightarrow> u_char) \<Rightarrow> int \<Rightarrow> bool list \<Rightarrow> bool" where
  "has_prefix buf c xs = (\<forall>j < length xs. stream_bit buf (c + int j) = xs ! j)"

text \<open>One iteration of the reader's loop on its accumulator.\<close>

definition decode_step :: "juint \<Rightarrow> u_char \<Rightarrow> juint" where
  "decode_step acc g = push_bit 6 acc OR (ucast g AND 0x3f)"

section \<open>Instances of the primitives\<close>

text \<open>
  Concrete primitives that satisfy the assumptions of the derived encodings.
\<close>

text \<open>An instance of the sign folding: the zig-zag encoding \<open>(x << 1) ^ (x >> 31)\<close>.\<close>

definition zigzag_encode :: "jint \<Rightarrow> juint" where
  "zigzag_encode x = push_bit 1 x XOR signed_drop_bit 31 x"

text \<open>Its inverse, \<open>(y >> 1) ^ -(y & 1)\<close>.\<close>

definition zigzag_decode :: "juint \<Rightarrow> jint" where
  "zigzag_decode y = drop_bit 1 y XOR - (y AND 1)"

text \<open>An instance of the unsigned primitive: four bytes, most significant first, written
  with \<open>write_u_char\<close>.\<close>

definition fixed_write_uint :: write_uint_fn where
  "fixed_write_uint s v =
     (let s = write_u_char (\<lambda>n i. 0) s (ucast (drop_bit 24 v));
          s = write_u_char (\<lambda>n i. 0) s (ucast (drop_bit 16 v));
          s = write_u_char (\<lambda>n i. 0) s (ucast (drop_bit 8 v))
      in write_u_char (\<lambda>n i. 0) s (ucast v))"

text \<open>Its reader.\<close>

definition fixed_read_uint :: read_uint_fn where
  "fixed_read_uint r =
     (let b = s_buffer r; p = s_position r
      in (push_bit 24 (ucast (b p)) OR push_bit 16 (ucast (b (p + 1)))
            OR push_bit 8 (ucast (b (p + 2))) OR ucast (b (p + 3)),
          r\<lparr>s_position := p + 4\<rparr>))"

section \<open>Byte arithmetic after integer promotion\<close>

lemma ucast_push_bit_promoted:
  "ucast (push_bit n (ucast (x :: u_char) :: jint)) = (push_bit n x :: u_char)"
  by (auto simp add: bit_eq_iff bit_simps)

lemma ucast_drop_bit_promoted:
  "ucast (drop_bit n (ucast (x :: u_char) :: jint)) = (drop_bit n x :: u_char)"
  by (auto simp add: bit_eq_iff bit_simps dest: bit_imp_le_length)

lemma ucast_or_promoted:
  "ucast ((x :: jint) OR y) = (ucast x OR ucast y :: u_char)"
  by (auto simp add: bit_eq_iff bit_simps)

lemma ucast_ucast_promoted:
  "ucast (ucast (x :: u_char) :: jint) = x"
  by (auto simp add: bit_eq_iff bit_simps)

lemma ucast_mask_promoted:
  assumes "n \<le> 8"
  shows "ucast (drop_bit (8 - n) (0xff :: jint) AND ucast (b :: u_char)) = (take_bit n b :: u_char)"
proof -
  have m: "(0xff :: jint) = mask 8" by (simp add: mask_eq_exp_minus_1)
  show ?thesis unfolding m using assms
    by (intro bit_word_eqI) (auto simp add: bit_simps)
qed

lemma test_bit_promoted:
  assumes "n < 8"
  shows "((ucast (x :: u_char) :: jint) AND push_bit n 1 \<noteq> 0) = bit x n"
proof -
  have "((ucast x :: jint) AND 2 ^ n = 0) = (\<not> bit (ucast x :: jint) n)"
    by (rule and_exp_eq_0_iff_not_bit)
  then show ?thesis using assms by (simp add: bit_simps push_bit_eq_mult)
qed

lemma ucast_double_promoted:
  "ucast ((ucast (x :: u_char) :: jint) * 2) = (push_bit 1 x :: u_char)"
  using ucast_push_bit_promoted [of 1 x] by simp

lemma bit_double_u_char:
  "bit (x * 2 :: u_char) k = (0 < k \<and> k < 8 \<and> bit x (k - 1))"
proof -
  have "x * 2 = push_bit 1 x" by simp
  then show ?thesis by (auto simp only: bit_push_bit_iff possible_bit_word len_of_numeral_defs)+
qed

lemmas promoted = ucast_push_bit_promoted ucast_drop_bit_promoted ucast_or_promoted
  ucast_ucast_promoted ucast_double_promoted bit_double_u_char

section \<open>The bit stream a writer has produced\<close>

lemma write_u_char_position [simp]:
  "s_position (write_u_char alloc s b) = s_position s + 1"
  by (simp add: write_u_char_def store_def grow_def Let_def)

lemma write_u_char_at [simp]:
  "i = s_position s \<Longrightarrow> s_buffer (write_u_char alloc s b) i = b"
  by (simp add: write_u_char_def store_def grow_def Let_def)

lemma write_u_char_below [simp]:
  "0 \<le> i \<Longrightarrow> i < s_position s \<Longrightarrow> s_buffer (write_u_char alloc s b) i = s_buffer s i"
  by (simp add: write_u_char_def store_def grow_def Let_def)

lemma write_u_char_byte_pos [simp]:
  "byte_pos (write_u_char alloc s b) = byte_pos s"
  by (simp add: write_u_char_def store_def grow_def Let_def)

lemma write_u_char_curr_byte [simp]:
  "curr_byte (write_u_char alloc s b) = curr_byte s"
  by (simp add: write_u_char_def store_def grow_def Let_def)

lemma stream_bit_split:
  "0 \<le> r \<Longrightarrow> r < 8 \<Longrightarrow> stream_bit buf (8 * q + r) = bit (buf q) (nat (7 - r))"
  by (simp add: stream_bit_def)

lemma appended_refl: "winv s \<Longrightarrow> appended s s []"
  by (simp add: appended_def)

lemma appended_trans:
  assumes "winv s" "appended s s' xs" "appended s' s'' ys"
  shows "appended s s'' (xs @ ys)"
proof -
  have w0: "0 \<le> wend s" using assms(1) by (simp add: winv_def wend_def)
  have e1: "wend s' = wend s + int (length xs)" using assms(2) by (simp add: appended_def)
  have e2: "wend s'' = wend s' + int (length ys)" using assms(3) by (simp add: appended_def)
  have f1: "\<And>k. 0 \<le> k \<Longrightarrow> k < wend s \<Longrightarrow> wbit s' k = wbit s k"
    using assms(2) by (simp add: appended_def)
  have f2: "\<And>k. 0 \<le> k \<Longrightarrow> k < wend s' \<Longrightarrow> wbit s'' k = wbit s' k"
    using assms(3) by (simp add: appended_def)
  have n1: "\<And>j. j < length xs \<Longrightarrow> wbit s' (wend s + int j) = xs ! j"
    using assms(2) by (simp add: appended_def)
  have n2: "\<And>j. j < length ys \<Longrightarrow> wbit s'' (wend s' + int j) = ys ! j"
    using assms(3) by (simp add: appended_def)
  have frame: "wbit s'' k = wbit s k" if "0 \<le> k" "k < wend s" for k
    using that f1 [of k] f2 [of k] e1 by simp
  have new: "wbit s'' (wend s + int j) = (xs @ ys) ! j" if "j < length (xs @ ys)" for j
  proof (cases "j < length xs")
    case True
    then have "wbit s'' (wend s + int j) = wbit s' (wend s + int j)"
      using f2 [of "wend s + int j"] w0 e1 by simp
    then show ?thesis using True n1 [of j] by (simp add: nth_append)
  next
    case False
    then have j: "j - length xs < length ys" using that by simp
    have eq: "wend s + int j = wend s' + int (j - length xs)" using False e1 by simp
    have "wbit s'' (wend s + int j) = wbit s'' (wend s' + int (j - length xs))"
      by (simp only: eq)
    also have "\<dots> = ys ! (j - length xs)" by (rule n2 [OF j])
    finally show ?thesis using False by (simp add: nth_append)
  qed
  show ?thesis
    unfolding appended_def using assms(3) e1 e2 frame new by (simp add: appended_def)
qed

lemma nat_byte_pos: "winv s \<Longrightarrow> \<exists>n. byte_pos s = int n \<and> n < 8"
  unfolding winv_def by (cases "byte_pos s") auto

lemma write_zero_appended:
  assumes "winv s"
  shows "appended s (write_zero alloc s) [False]"
proof -
  obtain n where n: "byte_pos s = int n" "n < 8" using nat_byte_pos [OF assms] by blast
  have p: "0 \<le> s_position s" using assms by (simp add: winv_def)
  show ?thesis
  proof (cases "n = 7")
    case True
    show ?thesis unfolding appended_def
    proof (intro conjI allI impI)
      show "winv (write_zero alloc s)" using n p True by (simp add: write_zero_def winv_def Let_def)
      show "wend (write_zero alloc s) = wend s + int (length [False])"
        using n True by (simp add: write_zero_def wend_def Let_def)
    next
      fix k assume k: "0 \<le> k \<and> k < wend s"
      show "wbit (write_zero alloc s) k = wbit s k"
      proof (cases "k < 8 * s_position s")
        case lt: True
        then have "0 \<le> k div 8" "k div 8 < s_position s" using k by auto
        then show ?thesis using lt n True
          by (simp add: write_zero_def wbit_def Let_def stream_bit_def)
      next
        case ge: False
        define r where "r = k - 8 * s_position s"
        have r: "0 \<le> r" "r < 7" "k = 8 * s_position s + r"
          using ge k n True by (auto simp: r_def wend_def)
        obtain m where m: "r = int m" "m < 7" using r by (cases r) auto
        have "nat (7 - int m) = Suc (6 - m)" using m by simp
        then show ?thesis using n True r m
          by (auto simp add: write_zero_def wbit_def Let_def stream_bit_split promoted wend_def
               bit_simps nat_diff_distrib)
      qed
    next
      fix j assume "j < length [False]"
      then have j: "j = 0" by simp
      show "wbit (write_zero alloc s) (wend s + int j) = [False] ! j"
        using n True stream_bit_split [of 7 "s_buffer (write_zero alloc s)" "s_position s"]
        by (simp add: j write_zero_def wbit_def Let_def wend_def promoted bit_simps)
    qed
  next
    case False
    then have n7: "n < 7" using n by simp
    show ?thesis unfolding appended_def
    proof (intro conjI allI impI)
      show "winv (write_zero alloc s)" using n p n7 by (simp add: write_zero_def winv_def Let_def)
      show "wend (write_zero alloc s) = wend s + int (length [False])"
        using n n7 by (simp add: write_zero_def wend_def Let_def)
    next
      fix k assume k: "0 \<le> k \<and> k < wend s"
      show "wbit (write_zero alloc s) k = wbit s k"
      proof (cases "k < 8 * s_position s")
        case lt: True
        then show ?thesis using n n7
          by (simp add: write_zero_def wbit_def Let_def)
      next
        case ge: False
        define r where "r = k - 8 * s_position s"
        have r: "0 \<le> r" "r < int n" "k = 8 * s_position s + r"
          using ge k n by (auto simp: r_def wend_def)
        obtain m where m: "r = int m" "m < n" using r by (cases r) auto
        have "nat (int n - int m) = Suc (n - 1 - m)" using m by simp
        moreover have "nat (int n + (- 1 - int m)) = n - Suc m" using m by simp
        ultimately show ?thesis using n n7 r m
          by (auto simp add: write_zero_def wbit_def Let_def promoted wend_def
               bit_simps nat_diff_distrib)
      qed
    next
      fix j assume "j < length [False]"
      then have j: "j = 0" by simp
      show "wbit (write_zero alloc s) (wend s + int j) = [False] ! j"
        using n n7
        by (simp add: j write_zero_def wbit_def Let_def wend_def promoted bit_simps)
    qed
  qed
qed

lemma wbit_buffer:
  "m < 8 \<Longrightarrow> q < s_position s \<Longrightarrow> wbit s (8 * q + int m) = bit (s_buffer s q) (7 - m)"
  by (simp add: wbit_def stream_bit_split nat_diff_distrib)

lemma wbit_curr:
  assumes "byte_pos s = int n"
  shows "wbit s (8 * s_position s + int m) = bit (curr_byte s) (n - 1 - m)"
proof -
  have "nat (int n + (- 1 - int m)) = n - Suc m" by arith
  then show ?thesis using assms by (simp add: wbit_def wend_def)
qed

lemma bit_index_cases:
  obtains q m where "k = 8 * q + int m" "m < 8"
proof -
  have "k = 8 * (k div 8) + int (nat (k mod 8))" "nat (k mod 8) < 8" by auto
  then show ?thesis using that by blast
qed

lemma length_bits8 [simp]: "length (bits8 b) = 8"
  by (simp add: bits8_def)

lemma nth_bits8: "j < 8 \<Longrightarrow> bits8 b ! j = bit b (7 - j)"
  unfolding bits8_def by (simp del: upt_Suc)

lemma write_byte_impl_fields:
  assumes "byte_pos s = int n" "n < 8"
  shows "s_position (write_byte_impl alloc s b) = s_position s + 1"
    and "byte_pos (write_byte_impl alloc s b) = int n"
    and "curr_byte (write_byte_impl alloc s b) = take_bit n b"
    and "s_buffer (write_byte_impl alloc s b) (s_position s)
           = push_bit (8 - n) (curr_byte s) OR drop_bit n b"
    and "\<And>i. 0 \<le> i \<Longrightarrow> i < s_position s \<Longrightarrow> s_buffer (write_byte_impl alloc s b) i = s_buffer s i"
  using assms
  by (simp_all add: write_byte_impl_def Let_def ucast_push_bit_promoted ucast_drop_bit_promoted
       ucast_or_promoted ucast_mask_promoted nat_diff_distrib)

lemma write_byte_impl_appended:
  assumes "winv s"
  shows "appended s (write_byte_impl alloc s b) (bits8 b)"
proof -
  obtain n where n: "byte_pos s = int n" "n < 8" using nat_byte_pos [OF assms] by blast
  have p: "0 \<le> s_position s" using assms by (simp add: winv_def)
  note f = write_byte_impl_fields [OF n, where alloc=alloc and b=b]
  let ?s = "write_byte_impl alloc s b"
  show ?thesis unfolding appended_def
  proof (intro conjI allI impI)
    show "winv ?s" using n p f by (simp add: winv_def)
    show "wend ?s = wend s + int (length (bits8 b))" using n f by (simp add: wend_def)
  next
    fix k assume k: "0 \<le> k \<and> k < wend s"
    obtain q m where qm: "k = 8 * q + int m" "m < 8" by (rule bit_index_cases)
    have q0: "0 \<le> q" using k qm by simp
    have "q < s_position s \<or> (q = s_position s \<and> m < n)"
      using k qm n by (auto simp: wend_def)
    then show "wbit ?s k = wbit s k"
    proof
      assume lt: "q < s_position s"
      then have "wbit ?s k = bit (s_buffer ?s q) (7 - m)"
        unfolding qm using qm f(1) by (intro wbit_buffer) simp_all
      also have "\<dots> = bit (s_buffer s q) (7 - m)" using f(5) [OF q0 lt] by simp
      also have "\<dots> = wbit s k" unfolding qm using qm lt by (simp add: wbit_buffer)
      finally show ?thesis .
    next
      assume eq: "q = s_position s \<and> m < n"
      then have "wbit ?s k = bit (s_buffer ?s (s_position s)) (7 - m)"
        unfolding qm using qm f(1) wbit_buffer [of m q ?s] by simp
      also have "\<dots> = bit (curr_byte s) (n - 1 - m)"
        using eq n qm by (auto simp add: f(4) bit_simps dest: bit_imp_le_length)
      also have "\<dots> = wbit s k" unfolding qm using eq n by (simp add: wbit_curr)
      finally show ?thesis .
    qed
  next
    fix j assume "j < length (bits8 b)"
    then have j: "j < 8" by simp
    show "wbit ?s (wend s + int j) = bits8 b ! j"
    proof (cases "n + j < 8")
      case True
      have eq: "wend s + int j = 8 * s_position s + int (n + j)" using n by (simp add: wend_def)
      have "wbit ?s (wend s + int j) = wbit ?s (8 * s_position s + int (n + j))"
        by (simp only: eq)
      also have "\<dots> = bit (s_buffer ?s (s_position s)) (7 - (n + j))"
        using True f(1) by (intro wbit_buffer) simp_all
      also have "\<dots> = bit b (7 - j)"
        using True n j by (auto simp add: f(4) bit_simps)
      finally show ?thesis using j by (simp add: nth_bits8)
    next
      case False
      have eq: "wend s + int j = 8 * s_position ?s + int (n + j - 8)"
        using n False f(1) by (simp add: wend_def)
      have "wbit ?s (wend s + int j) = wbit ?s (8 * s_position ?s + int (n + j - 8))"
        by (simp only: eq)
      also have "\<dots> = bit (curr_byte ?s) (n - 1 - (n + j - 8))"
        by (rule wbit_curr [OF f(2)])
      also have "\<dots> = bit b (7 - j)"
        using False n j by (auto simp add: f(3) bit_simps) 
      finally show ?thesis using j by (simp add: nth_bits8)
    qed
  qed
qed

section \<open>The bit-cursor invariant\<close>

lemma write_zero_fields:
  assumes "byte_pos s = int n" "n < 8"
  shows "byte_pos (write_zero alloc s) = (if n = 7 then 0 else int n + 1)"
    and "curr_byte (write_zero alloc s) = (if n = 7 then 0 else push_bit 1 (curr_byte s))"
    and "s_position (write_zero alloc s) = (if n = 7 then s_position s + 1 else s_position s)"
  using assms by (simp_all add: write_zero_def Let_def ucast_double_promoted)

lemma write_zero_inv:
  assumes "bit_cursor_inv s"
  shows "bit_cursor_inv (write_zero alloc s)"
proof -
  obtain n where n: "byte_pos s = int n" "n < 8"
    using assms unfolding bit_cursor_inv_def by (cases "byte_pos s") auto
  have c: "unat (curr_byte s) < 2 ^ n" using assms n by (simp add: bit_cursor_inv_def)
  have "unat (push_bit 1 (curr_byte s)) \<le> 2 * unat (curr_byte s)"
    by (simp add: unat_word_ariths)
  then have "unat (push_bit 1 (curr_byte s)) < 2 ^ Suc n" using c by simp
  then show ?thesis
    using n by (simp add: bit_cursor_inv_def write_zero_fields [OF n] nat_add_distrib)
qed

lemma write_byte_impl_inv:
  assumes "bit_cursor_inv s"
  shows "bit_cursor_inv (write_byte_impl alloc s b)"
proof -
  obtain n where n: "byte_pos s = int n" "n < 8"
    using assms unfolding bit_cursor_inv_def by (cases "byte_pos s") auto
  have "unat (take_bit n b) < 2 ^ n"
    by (simp add: unsigned_take_bit_eq)
  then show ?thesis
    using n by (simp add: bit_cursor_inv_def write_byte_impl_fields [OF n])
qed

lemma position_inv: "bit_cursor_inv s \<Longrightarrow> bit_cursor_inv (snd (position alloc s))"
  by (auto simp add: position_def Let_def bit_cursor_inv_def)

lemma write_int_loop_foldl:
  "write_int_loop alloc s val (int n) = foldl (write_byte_impl alloc) s (int_groups_from val n)"
proof (induction n arbitrary: s)
  case 0
  show ?case by simp
next
  case (Suc n)
  have i: "int (Suc n) - 1 = int n" "nat (6 + 6 * int n) = 6 + 6 * n" by simp_all
  show ?case
    by (subst write_int_loop.simps) (simp add: i Suc.IH Let_def del: write_int_loop.simps)
qed

lemma write_int_foldl:
  "val \<noteq> 0 \<Longrightarrow> write_int alloc s val = foldl (write_byte_impl alloc) s (int_groups val)"
  using write_int_loop_foldl [of alloc s val 5]
  by (simp add: write_int_def int_groups_def Let_def del: write_int_loop.simps)

lemma foldl_write_byte_impl_inv:
  "bit_cursor_inv s \<Longrightarrow> bit_cursor_inv (foldl (write_byte_impl alloc) s gs)"
  by (induction gs arbitrary: s) (simp_all add: write_byte_impl_inv)

lemma write_int_inv:
  "bit_cursor_inv s \<Longrightarrow> bit_cursor_inv (write_int alloc s val)"
  by (cases "val = 0")
     (simp_all add: write_int_foldl foldl_write_byte_impl_inv, simp add: write_int_def write_zero_inv)

text \<open>
  Claim C6 (bit-cursor invariant). \<open>bit_cursor_inv\<close> states that \<open>byte_pos\<close> lies in
  \<open>[0, 8)\<close> and that \<open>curr_byte < 2 ^ byte_pos\<close>. It is preserved by \<open>write_zero\<close>,
  \<open>write_byte_impl\<close>, \<open>write_int\<close> and \<open>position\<close>, and under it \<open>byte_pos = 0\<close> means an
  empty accumulator.
\<close>

theorem bit_cursor_invariant:
  assumes "bit_cursor_inv s"
  shows "bit_cursor_inv (write_zero alloc s)
       \<and> bit_cursor_inv (write_byte_impl alloc s b)
       \<and> bit_cursor_inv (write_int alloc s val)
       \<and> bit_cursor_inv (snd (position alloc s))
       \<and> (byte_pos s = 0 \<longrightarrow> curr_byte s = 0)"
  using assms write_zero_inv write_byte_impl_inv write_int_inv position_inv
  by (auto simp add: bit_cursor_inv_def unat_eq_0)

text \<open>
  The invariant holds of a new stream, and still after writing the value 1.
\<close>

theorem bit_cursor_invariant_witness:
  "bit_cursor_inv (CompressedSparseDataWriteStream_new (\<lambda>n i. 0) 100)
   \<and> bit_cursor_inv (write_int (\<lambda>n i. 0) (CompressedSparseDataWriteStream_new (\<lambda>n i. 0) 100) 1)"
  using bit_cursor_invariant [of "CompressedSparseDataWriteStream_new (\<lambda>n i. 0) 100" "\<lambda>n i. 0" 0 1]
  by (simp add: bit_cursor_inv_def CompressedSparseDataWriteStream_new_def)

section \<open>Growth of the buffer\<close>

lemma int_mul_2: "- (2 ^ 30) \<le> a \<Longrightarrow> a < 2 ^ 30 \<Longrightarrow> int_mul a 2 = 2 * a"
  unfolding int_mul_def by (simp add: signed_take_bit_int_eq_self)

text \<open>
  Where \<open>2 * s_size\<close> is representable as a 32-bit \<^verbatim>\<open>int\<close>, \<open>grow\<close> sets the capacity to
  the larger of \<open>2 * s_size\<close> and \<open>2 * MAX_LENGTH\<close>, and keeps the bytes at the indices
  \<open>0 \<le> i < s_position\<close> and the position itself.
\<close>

lemma grow_doubles:
  assumes "- (2 ^ 30) \<le> s_size s" "s_size s < 2 ^ 30"
  shows "s_size (grow alloc s) = max (2 * s_size s) (2 * MAX_LENGTH)
       \<and> 2 * s_size s \<le> s_size (grow alloc s)
       \<and> 2 * MAX_LENGTH \<le> s_size (grow alloc s)
       \<and> (\<forall>i. 0 \<le> i \<and> i < s_position s \<longrightarrow> s_buffer (grow alloc s) i = s_buffer s i)
       \<and> s_position (grow alloc s) = s_position s"
  using assms by (simp add: grow_def Let_def int_mul_2 MAX_LENGTH_def)

text \<open>
  Claim C9 (growth). A stream that holds \<open>2 ^ 30\<close> bytes in a buffer of capacity
  \<open>2 ^ 30\<close> is full, so the next write calls \<open>grow\<close>. There \<^verbatim>\<open>_size * 2\<close> leaves the range
  of \<^verbatim>\<open>int\<close>; taken in 32 bits two's complement it is \<open>- 2 ^ 31\<close>, below the floor, and
  the capacity \<open>grow\<close> asks for is \<open>2 * MAX_LENGTH = 10\<close>: not twice the old capacity, and
  less than the \<open>s_position\<close> bytes that \<^verbatim>\<open>memcpy\<close> then copies into the new array. In the
  program that copy runs past the 10 bytes allocated; the buffer of the model is total
  and has no such bound.
\<close>

theorem grow_overflow:
  "full huge_stream
   \<and> s_size (grow alloc huge_stream) = 10
   \<and> s_size (grow alloc huge_stream) < s_position huge_stream
   \<and> \<not> 2 * s_size huge_stream \<le> s_size (grow alloc huge_stream)"
  by (simp add: full_def grow_def Let_def int_mul_def MAX_LENGTH_def huge_stream_def
       signed_take_bit_eq_take_bit_shift)

section \<open>Alignment and sequences of writes\<close>

lemma position_fields:
  assumes "byte_pos s = int n" "0 < n" "n < 8"
  shows "s_position (snd (position alloc s)) = s_position s + 1"
    and "byte_pos (snd (position alloc s)) = 0"
    and "curr_byte (snd (position alloc s)) = 0"
    and "s_buffer (snd (position alloc s)) (s_position s) = push_bit (8 - n) (curr_byte s)"
    and "\<And>i. 0 \<le> i \<Longrightarrow> i < s_position s \<Longrightarrow> s_buffer (snd (position alloc s)) i = s_buffer s i"
  using assms
  by (simp_all add: position_def Let_def ucast_push_bit_promoted nat_diff_distrib)

lemma position_fst: "fst (position alloc s) = s_position (snd (position alloc s))"
  by (simp add: position_def Let_def)

lemma position_aligned: "byte_pos (snd (position alloc s)) = 0"
  by (simp add: position_def Let_def)

lemma position_appended:
  assumes "winv s"
  shows "appended s (snd (position alloc s)) (padding (byte_pos s))"
proof (cases "byte_pos s = 0")
  case True
  then show ?thesis using assms by (simp add: position_def padding_def appended_refl)
next
  case False
  obtain n where n: "byte_pos s = int n" "n < 8" using nat_byte_pos [OF assms] by blast
  have n0: "0 < n" using False n by simp
  have p: "0 \<le> s_position s" using assms by (simp add: winv_def)
  note f = position_fields [OF n(1) n0 n(2), where alloc=alloc]
  let ?s = "snd (position alloc s)"
  have len: "length (padding (byte_pos s)) = 8 - n" using n n0 by (simp add: padding_def nat_diff_distrib)
  show ?thesis unfolding appended_def
  proof (intro conjI allI impI)
    show "winv ?s" using p f by (simp add: winv_def)
    show "wend ?s = wend s + int (length (padding (byte_pos s)))"
      using n f len by (simp add: wend_def)
  next
    fix k assume k: "0 \<le> k \<and> k < wend s"
    obtain q m where qm: "k = 8 * q + int m" "m < 8" by (rule bit_index_cases)
    have q0: "0 \<le> q" using k qm by simp
    have "q < s_position s \<or> (q = s_position s \<and> m < n)"
      using k qm n by (auto simp: wend_def)
    then show "wbit ?s k = wbit s k"
    proof
      assume lt: "q < s_position s"
      then have "wbit ?s k = bit (s_buffer ?s q) (7 - m)"
        unfolding qm using qm f(1) by (intro wbit_buffer) simp_all
      also have "\<dots> = bit (s_buffer s q) (7 - m)" using f(5) [OF q0 lt] by simp
      also have "\<dots> = wbit s k" unfolding qm using qm lt by (simp add: wbit_buffer)
      finally show ?thesis .
    next
      assume eq: "q = s_position s \<and> m < n"
      then have "wbit ?s k = bit (s_buffer ?s (s_position s)) (7 - m)"
        unfolding qm using qm f(1) wbit_buffer [of m q ?s] by simp
      also have "\<dots> = bit (curr_byte s) (n - 1 - m)"
        using eq n qm by (auto simp add: f(4) bit_simps)
      also have "\<dots> = wbit s k" unfolding qm using eq n by (simp add: wbit_curr)
      finally show ?thesis .
    qed
  next
    fix j assume "j < length (padding (byte_pos s))"
    then have j: "j < 8 - n" using len by simp
    have eq: "wend s + int j = 8 * s_position s + int (n + j)" using n by (simp add: wend_def)
    have "wbit ?s (wend s + int j) = wbit ?s (8 * s_position s + int (n + j))"
      by (simp only: eq)
    also have "\<dots> = bit (s_buffer ?s (s_position s)) (7 - (n + j))"
      using j f(1) by (intro wbit_buffer) simp_all
    also have "\<dots> = False"
      using j n by (auto simp add: f(4) bit_simps)
    finally show "wbit ?s (wend s + int j) = padding (byte_pos s) ! j"
      using j n n0 by (simp add: padding_def nat_diff_distrib)
  qed
qed

lemma foldl_write_byte_impl_appended:
  "winv s \<Longrightarrow> appended s (foldl (write_byte_impl alloc) s gs) (concat (map bits8 gs))"
proof (induction gs arbitrary: s)
  case Nil
  then show ?case by (simp add: appended_refl)
next
  case (Cons g gs)
  have a: "appended s (write_byte_impl alloc s g) (bits8 g)"
    by (rule write_byte_impl_appended [OF Cons.prems])
  then have "winv (write_byte_impl alloc s g)" by (simp add: appended_def)
  then have "appended (write_byte_impl alloc s g) (foldl (write_byte_impl alloc) (write_byte_impl alloc s g) gs)
               (concat (map bits8 gs))"
    by (rule Cons.IH)
  with a show ?case using appended_trans [OF Cons.prems] by simp
qed

lemma write_int_appended:
  "winv s \<Longrightarrow> appended s (write_int alloc s val) (int_bits val)"
  by (cases "val = 0")
     (simp_all add: int_bits_def write_int_foldl foldl_write_byte_impl_appended,
      simp add: write_int_def write_zero_appended)

lemma write_ints_appended:
  "winv s \<Longrightarrow> appended s (write_ints alloc s vs) (concat (map int_bits vs))"
proof (induction vs arbitrary: s)
  case Nil
  then show ?case by (simp add: appended_refl)
next
  case (Cons v vs)
  have a: "appended s (write_int alloc s v) (int_bits v)"
    by (rule write_int_appended [OF Cons.prems])
  then have "winv (write_int alloc s v)" by (simp add: appended_def)
  then have "appended (write_int alloc s v) (write_ints alloc (write_int alloc s v) vs)
               (concat (map int_bits vs))"
    by (rule Cons.IH)
  with a show ?case using appended_trans [OF Cons.prems] by simp
qed

section \<open>Group markers\<close>

lemma bit_0xC0: "bit (0xC0 :: int) n = (n = 6 \<or> n = 7)"
proof -
  have "(0xC0 :: int) = push_bit 6 (mask 2)" by (simp add: mask_eq_exp_minus_1)
  then have "bit (0xC0 :: int) n = bit (push_bit 6 (mask 2) :: int) n" by simp
  also have "\<dots> = (n = 6 \<or> n = 7)"
    by (auto simp only: bit_push_bit_iff bit_mask_iff possible_bit_int)
  finally show ?thesis .
qed

lemma bit_0x80: "bit (0x80 :: int) n = (n = 7)"
proof -
  have "(0x80 :: int) = push_bit 7 (mask 1)" by (simp add: mask_eq_exp_minus_1)
  then have "bit (0x80 :: int) n = bit (push_bit 7 (mask 1) :: int) n" by simp
  also have "\<dots> = (n = 7)"
    by (auto simp only: bit_push_bit_iff bit_mask_iff possible_bit_int)
  finally show ?thesis .
qed

lemma bit_0x3f: "bit (0x3f :: int) n = (n < 6)"
proof -
  have "(0x3f :: int) = mask 6" by (simp add: mask_eq_exp_minus_1)
  then have "bit (0x3f :: int) n = bit (mask 6 :: int) n" by simp
  also have "\<dots> = (n < 6)"
    by (auto simp only: bit_mask_iff possible_bit_int)
  finally show ?thesis .
qed

lemmas bit_markers = bit_0xC0 bit_0x80 bit_0x3f

lemma marker_nonfinal:
  fixes x :: juint
  defines "g \<equiv> (ucast (0xC0 OR (x AND 0x3f)) :: u_char)"
  shows "(ucast g :: jint) AND 0xC0 = 0xC0" and "(ucast g :: jint) AND 0x3f = x AND 0x3f" and "bit g 7"
proof -
  show "(ucast g :: jint) AND 0xC0 = 0xC0"
    unfolding g_def by (intro bit_word_eqI) (auto simp add: bit_simps bit_markers)
  show "(ucast g :: jint) AND 0x3f = x AND 0x3f"
    unfolding g_def by (intro bit_word_eqI) (auto simp add: bit_simps bit_markers)
  show "bit g 7"
    unfolding g_def by (auto simp add: bit_simps bit_markers)
qed

lemma marker_final:
  fixes x :: juint
  defines "g \<equiv> (ucast (0x80 OR (x AND 0x3f)) :: u_char)"
  shows "(ucast g :: jint) AND 0xC0 = 0x80" and "(ucast g :: jint) AND 0x3f = x AND 0x3f" and "bit g 7"
proof -
  show "(ucast g :: jint) AND 0xC0 = 0x80"
    unfolding g_def by (intro bit_word_eqI) (auto simp add: bit_simps bit_markers)
  show "(ucast g :: jint) AND 0x3f = x AND 0x3f"
    unfolding g_def by (intro bit_word_eqI) (auto simp add: bit_simps bit_markers)
  show "bit g 7"
    unfolding g_def by (auto simp add: bit_simps bit_markers)
qed

section \<open>The bit stream a reader consumes\<close>

lemma has_prefix_append:
  "has_prefix buf c (xs @ ys) = (has_prefix buf c xs \<and> has_prefix buf (c + int (length xs)) ys)"
proof
  assume h: "has_prefix buf c (xs @ ys)"
  have "has_prefix buf c xs"
    unfolding has_prefix_def
  proof (intro allI impI)
    fix j assume "j < length xs"
    then show "stream_bit buf (c + int j) = xs ! j"
      using h [unfolded has_prefix_def, rule_format, of j] by (simp add: nth_append)
  qed
  moreover have "has_prefix buf (c + int (length xs)) ys"
    unfolding has_prefix_def
  proof (intro allI impI)
    fix j assume "j < length ys"
    then show "stream_bit buf (c + int (length xs) + int j) = ys ! j"
      using h [unfolded has_prefix_def, rule_format, of "length xs + j"]
      by (simp add: nth_append add.assoc)
  qed
  ultimately show "has_prefix buf c xs \<and> has_prefix buf (c + int (length xs)) ys" ..
next
  assume h: "has_prefix buf c xs \<and> has_prefix buf (c + int (length xs)) ys"
  show "has_prefix buf c (xs @ ys)"
    unfolding has_prefix_def
  proof (intro allI impI)
    fix j assume j: "j < length (xs @ ys)"
    show "stream_bit buf (c + int j) = (xs @ ys) ! j"
    proof (cases "j < length xs")
      case True
      then show ?thesis using h by (simp add: has_prefix_def nth_append)
    next
      case False
      then have eq: "c + int j = c + int (length xs) + int (j - length xs)" by simp
      have "j - length xs < length ys" using j False by simp
      then have "stream_bit buf (c + int (length xs) + int (j - length xs)) = ys ! (j - length xs)"
        using h by (simp add: has_prefix_def)
      then show ?thesis using False by (simp only: eq nth_append if_False)
    qed
  qed
qed

lemma read_zero_cases:
  assumes "r_byte_pos r = int n" "n < 8"
  shows "stream_bit (s_buffer r) (rcur r) \<Longrightarrow> read_zero r = (False, r)"
    and "\<not> stream_bit (s_buffer r) (rcur r) \<Longrightarrow>
           read_zero r = (True, r\<lparr>s_position := (if n = 7 then s_position r + 1 else s_position r),
                                   r_byte_pos := (if n = 7 then 0 else int n + 1)\<rparr>)"
proof -
  have t: "((ucast (s_buffer r (s_position r)) :: jint) AND push_bit (nat (7 - r_byte_pos r)) 1 \<noteq> 0)
            = stream_bit (s_buffer r) (rcur r)"
    using assms test_bit_promoted [of "7 - n" "s_buffer r (s_position r)"]
    by (simp add: rcur_def stream_bit_split nat_diff_distrib)
  show "stream_bit (s_buffer r) (rcur r) \<Longrightarrow> read_zero r = (False, r)"
    unfolding read_zero_def t by simp
  show "\<not> stream_bit (s_buffer r) (rcur r) \<Longrightarrow>
           read_zero r = (True, r\<lparr>s_position := (if n = 7 then s_position r + 1 else s_position r),
                                   r_byte_pos := (if n = 7 then 0 else int n + 1)\<rparr>)"
    unfolding read_zero_def t using assms by (simp add: Let_def)
qed

lemma read_byte_impl_eq:
  assumes "r_byte_pos r = int n" "n < 8"
  shows "read_byte_impl r =
           (push_bit n (s_buffer r (s_position r)) OR drop_bit (8 - n) (s_buffer r (s_position r + 1)),
            r\<lparr>s_position := s_position r + 1\<rparr>)"
  using assms
  by (simp add: read_byte_impl_def Let_def ucast_push_bit_promoted ucast_drop_bit_promoted
       ucast_or_promoted ucast_ucast_promoted nat_diff_distrib)

lemma stream_bit_nat:
  "m < 8 \<Longrightarrow> stream_bit buf (8 * q + int m) = bit (buf q) (7 - m)"
  by (simp add: stream_bit_split nat_diff_distrib)

lemma read_byte_impl_bits:
  assumes "r_byte_pos r = int n" "n < 8" "j < 8"
  shows "bit (fst (read_byte_impl r)) (7 - j) = stream_bit (s_buffer r) (rcur r + int j)"
proof (cases "n + j < 8")
  case True
  have eq: "rcur r + int j = 8 * s_position r + int (n + j)" using assms by (simp add: rcur_def)
  have "stream_bit (s_buffer r) (rcur r + int j) = bit (s_buffer r (s_position r)) (7 - (n + j))"
    unfolding eq using True by (rule stream_bit_nat)
  then show ?thesis using True assms
    by (auto simp add: read_byte_impl_eq [OF assms(1,2)] bit_simps ac_simps dest: bit_imp_le_length)
next
  case False
  have eq: "rcur r + int j = 8 * (s_position r + 1) + int (n + j - 8)"
    using assms False by (simp add: rcur_def)
  have "n + j - 8 < 8" using assms by simp
  then have "stream_bit (s_buffer r) (rcur r + int j) = bit (s_buffer r (s_position r + 1)) (7 - (n + j - 8))"
    unfolding eq by (rule stream_bit_nat)
  moreover have "8 - n + (7 - j) = 7 - (n + j - 8)" using False assms by simp
  ultimately show ?thesis using False assms
    by (auto simp add: read_byte_impl_eq [OF assms(1,2)] bit_simps)
qed

lemma read_byte_impl_group:
  assumes "r_byte_pos r = int n" "n < 8"
    and "has_prefix (s_buffer r) (rcur r) (bits8 g @ rest)"
  shows "read_byte_impl r = (g, r\<lparr>s_position := s_position r + 1\<rparr>)"
proof -
  have "fst (read_byte_impl r) = g"
  proof (rule bit_word_eqI)
    fix i assume "i < LENGTH(8)"
    then have i: "i < 8" by simp
    then have "bit (fst (read_byte_impl r)) (7 - (7 - i)) = stream_bit (s_buffer r) (rcur r + int (7 - i))"
      by (intro read_byte_impl_bits [OF assms(1,2)]) simp
    also have "\<dots> = (bits8 g @ rest) ! (7 - i)"
      using i by (intro assms(3) [unfolded has_prefix_def, rule_format]) simp
    also have "\<dots> = bit g (7 - (7 - i))"
    proof -
      have "7 - i < 8" by arith
      then show ?thesis by (simp add: nth_append nth_bits8)
    qed
    finally show "bit (fst (read_byte_impl r)) i = bit g i" using i by simp
  qed
  then show ?thesis by (simp add: read_byte_impl_eq [OF assms(1,2)])
qed

section \<open>Decoding the groups of one value\<close>

lemma read_int_loop_groups:
  assumes "r_byte_pos r = int n" "n < 8"
    and "has_prefix (s_buffer r) (rcur r) (concat (map bits8 (gs @ [f])) @ rest)"
    and "\<forall>g \<in> set gs. (ucast g :: jint) AND 0xC0 \<noteq> 0x80"
    and "(ucast f :: jint) AND 0xC0 = 0x80"
  shows "read_int_loop r acc =
           Some (foldl decode_step acc (gs @ [f]), r\<lparr>s_position := s_position r + int (length gs) + 1\<rparr>)"
  using assms
proof (induction gs arbitrary: r acc)
  case Nil
  have "has_prefix (s_buffer r) (rcur r) (bits8 f @ rest)" using Nil.prems(3) by simp
  then have rb: "read_byte_impl r = (f, r\<lparr>s_position := s_position r + 1\<rparr>)"
    by (rule read_byte_impl_group [OF Nil.prems(1,2)])
  show ?case
    by (subst read_int_loop.simps) (simp add: rb Nil.prems(5) decode_step_def)
next
  case (Cons g gs)
  let ?r = "r\<lparr>s_position := s_position r + 1\<rparr>"
  have hp: "has_prefix (s_buffer r) (rcur r) (bits8 g @ (concat (map bits8 (gs @ [f])) @ rest))"
    using Cons.prems(3) by simp
  then have rb: "read_byte_impl r = (g, ?r)"
    by (rule read_byte_impl_group [OF Cons.prems(1,2)])
  have g: "(ucast g :: jint) AND 0xC0 \<noteq> 0x80" using Cons.prems(4) by simp
  have "has_prefix (s_buffer r) (rcur r + int (length (bits8 g))) (concat (map bits8 (gs @ [f])) @ rest)"
    using hp has_prefix_append [of "s_buffer r" "rcur r" "bits8 g"] by blast
  moreover have "rcur ?r = rcur r + int (length (bits8 g))" by (simp add: rcur_def)
  ultimately have "has_prefix (s_buffer ?r) (rcur ?r) (concat (map bits8 (gs @ [f])) @ rest)"
    by simp
  then have "read_int_loop ?r (decode_step acc g) =
           Some (foldl decode_step (decode_step acc g) (gs @ [f]),
                 ?r\<lparr>s_position := s_position ?r + int (length gs) + 1\<rparr>)"
    using Cons.prems by (intro Cons.IH) simp_all
  then show ?case
    by (subst read_int_loop.simps) (simp add: rb g decode_step_def)
qed

lemma decode_step_drop_bit:
  fixes val :: juint
  assumes "(ucast g :: jint) AND 0x3f = drop_bit k val AND 0x3f"
  shows "decode_step (drop_bit (6 + k) val) g = drop_bit k val"
  unfolding decode_step_def assms
proof (rule bit_word_eqI)
  fix i assume "i < LENGTH(32)"
  show "bit (push_bit 6 (drop_bit (6 + k) val) OR (drop_bit k val AND 0x3f)) i = bit (drop_bit k val) i"
  proof (cases "i < 6")
    case True
    then show ?thesis by (simp add: bit_simps bit_markers)
  next
    case False
    then have "6 + k + (i - 6) = k + i" by simp
    then show ?thesis using False by (auto simp add: bit_simps bit_markers dest: bit_imp_le_length)
  qed
qed

lemma decode_int_groups_from:
  "foldl decode_step (drop_bit (6 * Suc n) val) (int_groups_from val n) = drop_bit 6 val"
proof (induction n)
  case 0
  show ?case by simp
next
  case (Suc n)
  show ?case
  proof (cases "drop_bit (6 * Suc n) val = 0")
    case True
    have "drop_bit (6 + 6 * Suc n) val = drop_bit 6 (drop_bit (6 * Suc n) val)"
      by (simp only: drop_bit_drop_bit)
    then have "drop_bit (6 + 6 * Suc n) val = 0" by (simp only: True drop_bit_of_0)
    then show ?thesis using True Suc.IH by simp
  next
    case False
    have "decode_step (drop_bit (6 + 6 * Suc n) val)
            (ucast (0xC0 OR (drop_bit (6 * Suc n) val AND 0x3f))) = drop_bit (6 * Suc n) val"
      by (rule decode_step_drop_bit) (rule marker_nonfinal(2))
    then show ?thesis using False Suc.IH by simp
  qed
qed

lemma decode_int_groups: "foldl decode_step 0 (int_groups val) = val"
proof -
  have z: "drop_bit (6 * Suc 5) val = 0" by (intro bit_word_eqI) (simp add: bit_simps)
  have "decode_step (drop_bit (6 + 0) val) (ucast (0x80 OR (drop_bit 0 val AND 0x3f))) = drop_bit 0 val"
    by (rule decode_step_drop_bit) (rule marker_final(2))
  then show ?thesis
    using decode_int_groups_from [of 5 val] by (simp add: int_groups_def z)
qed

lemma int_groups_from_markers:
  "\<forall>g \<in> set (int_groups_from val n). (ucast g :: jint) AND 0xC0 = 0xC0 \<and> bit g 7"
  by (induction n) (auto simp add: marker_nonfinal)

lemma length_int_groups_from: "length (int_groups_from val n) \<le> n"
  by (induction n) auto

lemma int_groups_first_bit: "g \<in> set (int_groups val) \<Longrightarrow> bit g 7"
  using int_groups_from_markers [of val 5] by (auto simp add: int_groups_def marker_final)

lemma int_bits_first:
  assumes "val \<noteq> 0"
  shows "int_bits val ! 0 = True" and "0 < length (int_bits val)"
proof -
  obtain g gs where g: "int_groups val = g # gs"
    by (cases "int_groups val") (simp_all add: int_groups_def)
  then have "bit g 7" using int_groups_first_bit [of g val] by simp
  then show "int_bits val ! 0 = True" using assms g
    by (simp add: int_bits_def nth_append nth_bits8)
  show "0 < length (int_bits val)" using assms g by (simp add: int_bits_def)
qed

lemma length_int_bits:
  "length (int_bits val) = (if val = 0 then 1 else 8 * length (int_groups val))"
proof -
  have "length (concat (map bits8 gs)) = 8 * length gs" for gs
    by (induction gs) simp_all
  then show ?thesis by (simp add: int_bits_def)
qed

section \<open>Round trip of the bit-packed codec\<close>

lemma nat_r_byte_pos:
  "0 \<le> r_byte_pos r \<Longrightarrow> r_byte_pos r < 8 \<Longrightarrow> \<exists>n. r_byte_pos r = int n \<and> n < 8"
  by (cases "r_byte_pos r") auto

lemma read_int_int_bits:
  assumes "0 \<le> r_byte_pos r" "r_byte_pos r < 8"
    and "has_prefix (s_buffer r) (rcur r) (int_bits val @ rest)"
  shows "\<exists>r'. read_int r = Some (val, r') \<and> s_buffer r' = s_buffer r
           \<and> rcur r' = rcur r + int (length (int_bits val))
           \<and> 0 \<le> r_byte_pos r' \<and> r_byte_pos r' < 8
           \<and> s_position r' = s_position r + (r_byte_pos r + int (length (int_bits val))) div 8"
proof -
  obtain n where n: "r_byte_pos r = int n" "n < 8" using nat_r_byte_pos [OF assms(1,2)] by blast
  have l: "0 < length (int_bits val)" by (simp add: length_int_bits int_groups_def)
  then have "stream_bit (s_buffer r) (rcur r + int 0) = (int_bits val @ rest) ! 0"
    by (intro assms(3) [unfolded has_prefix_def, rule_format]) simp
  then have first: "stream_bit (s_buffer r) (rcur r) = (int_bits val ! 0)"
    using l by (simp add: nth_append)
  show ?thesis
  proof (cases "val = 0")
    case True
    then have "\<not> stream_bit (s_buffer r) (rcur r)" using first by (simp add: int_bits_def)
    then show ?thesis
      using True n by (simp add: read_int_def read_zero_cases(2) [OF n] rcur_def int_bits_def)
  next
    case False
    then have "stream_bit (s_buffer r) (rcur r)" using first by (simp add: int_bits_first)
    then have rz: "read_zero r = (False, r)" by (rule read_zero_cases(1) [OF n])
    have hp: "has_prefix (s_buffer r) (rcur r)
                (concat (map bits8 (int_groups_from val 5 @ [ucast (0x80 OR (val AND 0x3f))])) @ rest)"
      using assms(3) False by (simp add: int_bits_def int_groups_def)
    have m: "\<forall>g \<in> set (int_groups_from val 5). (ucast g :: jint) AND 0xC0 \<noteq> 0x80"
      using int_groups_from_markers [of val 5] by auto
    have "read_int_loop r 0 =
            Some (foldl decode_step 0 (int_groups_from val 5 @ [ucast (0x80 OR (val AND 0x3f))]),
                  r\<lparr>s_position := s_position r + int (length (int_groups_from val 5)) + 1\<rparr>)"
      by (rule read_int_loop_groups [OF n hp m]) (rule marker_final(1))
    then have "read_int r = Some (val, r\<lparr>s_position := s_position r + int (length (int_groups val))\<rparr>)"
      using decode_int_groups [of val] by (simp add: read_int_def rz int_groups_def)
    then show ?thesis using False n by (simp add: rcur_def length_int_bits)
  qed
qed

lemma read_ints_int_bits:
  assumes "0 \<le> r_byte_pos r" "r_byte_pos r < 8"
    and "has_prefix (s_buffer r) (rcur r) (concat (map int_bits vs) @ rest)"
  shows "\<exists>r'. read_ints (length vs) r = Some (vs, r') \<and> s_buffer r' = s_buffer r
           \<and> rcur r' = rcur r + int (length (concat (map int_bits vs)))"
  using assms
proof (induction vs arbitrary: r)
  case Nil
  then show ?case by simp
next
  case (Cons v vs)
  have hp: "has_prefix (s_buffer r) (rcur r) (int_bits v @ (concat (map int_bits vs) @ rest))"
    using Cons.prems(3) by simp
  obtain r1 where r1: "read_int r = Some (v, r1)" "s_buffer r1 = s_buffer r"
      "rcur r1 = rcur r + int (length (int_bits v))" "0 \<le> r_byte_pos r1" "r_byte_pos r1 < 8"
    using read_int_int_bits [OF Cons.prems(1,2) hp] by blast
  have "has_prefix (s_buffer r1) (rcur r1) (concat (map int_bits vs) @ rest)"
    using hp r1(2,3) has_prefix_append [of "s_buffer r" "rcur r" "int_bits v"] by simp
  then obtain r2 where r2: "read_ints (length vs) r1 = Some (vs, r2)" "s_buffer r2 = s_buffer r1"
      "rcur r2 = rcur r1 + int (length (concat (map int_bits vs)))"
    using Cons.IH [OF r1(4,5)] by blast
  show ?case using r1 r2 by simp
qed

lemma appended_aligned_prefix:
  assumes "winv s" "appended s s' xs" "byte_pos s' = 0"
  shows "has_prefix (s_buffer s') (wend s) xs"
  unfolding has_prefix_def
proof (intro allI impI)
  fix j assume j: "j < length xs"
  have "wend s' = wend s + int (length xs)" using assms(2) by (simp add: appended_def)
  then have "wend s + int j < 8 * s_position s'" using j assms(3) by (simp add: wend_def)
  then have "wbit s' (wend s + int j) = stream_bit (s_buffer s') (wend s + int j)"
    by (simp add: wbit_def)
  then show "stream_bit (s_buffer s') (wend s + int j) = xs ! j"
    using assms(2) j by (simp add: appended_def)
qed

text \<open>
  Claim C1 (round trip of the bit-packed codec). Let a write stream stand at a position
  \<open>s_position s \<ge> 0\<close> with any bit offset \<open>byte_pos s\<close> in \<open>[0, 8)\<close>. Writing any finite
  list \<open>vs\<close> of unsigned 32-bit values in order with \<open>write_int\<close>, aligning with
  \<open>position\<close>, and then reading \<open>length vs\<close> values with \<open>read_int\<close> from a read stream on
  the resulting buffer, at the position and bit offset where writing began, returns
  exactly \<open>vs\<close>. In particular every \<open>read_int\<close> on the way returns: its loop meets a
  final group. The fresh contents \<open>alloc\<close> of every reallocation and the capacity of the
  stream are arbitrary. A stream as constructed has bit offset 0, and so has the read
  stream that \<open>CompressedSparseDataReadStream_new\<close> opens at a byte offset.
\<close>

theorem sparse_round_trip:
  assumes "0 \<le> s_position s" and "0 \<le> byte_pos s" and "byte_pos s < 8"
  shows "\<exists>r'. read_ints (length vs)
                \<lparr>s_buffer = s_buffer (snd (position alloc (write_ints alloc s vs))),
                 s_position = s_position s, r_byte_pos = byte_pos s\<rparr>
              = Some (vs, r')"
proof -
  let ?s1 = "write_ints alloc s vs"
  let ?sF = "snd (position alloc ?s1)"
  let ?r = "\<lparr>s_buffer = s_buffer ?sF, s_position = s_position s, r_byte_pos = byte_pos s\<rparr>"
  have w: "winv s" using assms by (simp add: winv_def)
  have a1: "appended s ?s1 (concat (map int_bits vs))" by (rule write_ints_appended [OF w])
  then have "winv ?s1" by (simp add: appended_def)
  then have "appended ?s1 ?sF (padding (byte_pos ?s1))" by (rule position_appended)
  then have "appended s ?sF (concat (map int_bits vs) @ padding (byte_pos ?s1))"
    by (rule appended_trans [OF w a1])
  then have "has_prefix (s_buffer ?sF) (wend s) (concat (map int_bits vs) @ padding (byte_pos ?s1))"
    using position_aligned by (rule appended_aligned_prefix [OF w])
  moreover have "rcur ?r = wend s" "s_buffer ?r = s_buffer ?sF"
    by (simp_all add: rcur_def wend_def)
  moreover have "0 \<le> r_byte_pos ?r" "r_byte_pos ?r < 8" using assms by simp_all
  ultimately show ?thesis
    using read_ints_int_bits [of ?r vs "padding (byte_pos ?s1)"] by auto
qed

text \<open>
  The round trip at a concrete input: the values 0, 0xFF, 0xFFFFFFFF and 1 written to a
  new stream of capacity 4, which has to grow, and read by a stream opened at offset 0.
\<close>

theorem sparse_round_trip_witness:
  "\<exists>r'. read_ints (length [0, 0xFF, 0xFFFFFFFF, 1 :: juint])
          (CompressedSparseDataReadStream_new
             (s_buffer (snd (position (\<lambda>n i. 0)
                (write_ints (\<lambda>n i. 0) (CompressedSparseDataWriteStream_new (\<lambda>n i. 0) 4)
                   [0, 0xFF, 0xFFFFFFFF, 1])))) 0)
        = Some ([0, 0xFF, 0xFFFFFFFF, 1], r')"
proof -
  let ?s = "CompressedSparseDataWriteStream_new (\<lambda>n i. 0) 4"
  have h: "0 \<le> s_position ?s" "0 \<le> byte_pos ?s" "byte_pos ?s < 8"
    by (simp_all add: CompressedSparseDataWriteStream_new_def)
  have r: "CompressedSparseDataReadStream_new b 0
             = \<lparr>s_buffer = b, s_position = s_position ?s, r_byte_pos = byte_pos ?s\<rparr>" for b
    by (simp add: CompressedSparseDataWriteStream_new_def CompressedSparseDataReadStream_new_def)
  show ?thesis unfolding r by (rule sparse_round_trip [OF h])
qed

section \<open>The groups of one value\<close>

lemma int_groups_unfold:
  "int_groups val =
     map (\<lambda>i. ucast (0xC0 OR (drop_bit (6 * i) val AND 0x3f)))
       (filter (\<lambda>i. drop_bit (6 * i) val \<noteq> 0) [5, 4, 3, 2, 1])
     @ [ucast (0x80 OR (val AND 0x3f))]"
  by (simp add: int_groups_def eval_nat_numeral)

lemma length_int_groups: "1 \<le> length (int_groups val) \<and> length (int_groups val) \<le> 6"
  using length_int_groups_from [of val 5] by (simp add: int_groups_def)

lemma int_groups_markers:
  "(ucast (last (int_groups val)) :: jint) AND 0xC0 = 0x80"
  "\<forall>g \<in> set (butlast (int_groups val)). (ucast g :: jint) AND 0xC0 = 0xC0"
  using int_groups_from_markers [of val 5] by (simp_all add: int_groups_def marker_final)

text \<open>
  Claim C4 (at most six groups). For a non-zero value, \<open>write_int\<close> is exactly one call
  of \<open>write_byte_impl\<close> per element of \<open>int_groups val\<close>, in order; a zero value is
  written by \<open>write_zero\<close> alone, with no group. The list \<open>int_groups val\<close> is the groups
  \<open>0xC0 | ((val >> 6 i) & 0x3f)\<close> for those \<open>i\<close> of 5, 4, 3, 2, 1 with \<open>val >> 6 i \<noteq> 0\<close>
  (the leading all-zero groups are skipped), followed by the final group
  \<open>0x80 | (val & 0x3f)\<close>. It has between 1 and 6 elements, its last element carries the
  marker \<open>10\<close> and all the others the marker \<open>11\<close>. Reading a non-zero value back at
  the bit cursor where it was written returns it, and the reader's position has
  advanced by the number of groups, one per iteration of its loop: at most 6. Reading a
  zero back returns 0 from \<open>read_zero\<close>, and the loop is not entered.
\<close>

theorem write_int_groups:
  assumes "0 \<le> s_position s" and "0 \<le> byte_pos s" and "byte_pos s < 8"
  shows "write_int alloc s val =
           (if val = 0 then write_zero alloc s else foldl (write_byte_impl alloc) s (int_groups val))
       \<and> int_groups val =
           map (\<lambda>i. ucast (0xC0 OR (drop_bit (6 * i) val AND 0x3f)))
             (filter (\<lambda>i. drop_bit (6 * i) val \<noteq> 0) [5, 4, 3, 2, 1])
           @ [ucast (0x80 OR (val AND 0x3f))]
       \<and> 1 \<le> length (int_groups val) \<and> length (int_groups val) \<le> 6
       \<and> (ucast (last (int_groups val)) :: jint) AND 0xC0 = 0x80
       \<and> list_all (\<lambda>g. (ucast g :: jint) AND 0xC0 = 0xC0) (butlast (int_groups val))
       \<and> read_int \<lparr>s_buffer = s_buffer (snd (position alloc (write_int alloc s val))),
                    s_position = s_position s, r_byte_pos = byte_pos s\<rparr>
           = (if val = 0
              then Some (0, snd (read_zero
                     \<lparr>s_buffer = s_buffer (snd (position alloc (write_int alloc s val))),
                      s_position = s_position s, r_byte_pos = byte_pos s\<rparr>))
              else Some (val, \<lparr>s_buffer = s_buffer (snd (position alloc (write_int alloc s val))),
                         s_position = s_position s + int (length (int_groups val)),
                         r_byte_pos = byte_pos s\<rparr>))"
proof -
  let ?s1 = "write_int alloc s val"
  let ?sF = "snd (position alloc ?s1)"
  let ?r = "\<lparr>s_buffer = s_buffer ?sF, s_position = s_position s, r_byte_pos = byte_pos s\<rparr>"
  have w: "winv s" using assms by (simp add: winv_def)
  obtain n where n: "byte_pos s = int n" "n < 8" using nat_byte_pos [OF w] by blast
  have a1: "appended s ?s1 (int_bits val)" by (rule write_int_appended [OF w])
  then have "winv ?s1" by (simp add: appended_def)
  then have "appended ?s1 ?sF (padding (byte_pos ?s1))" by (rule position_appended)
  then have "appended s ?sF (int_bits val @ padding (byte_pos ?s1))"
    by (rule appended_trans [OF w a1])
  then have "has_prefix (s_buffer ?sF) (wend s) (int_bits val @ padding (byte_pos ?s1))"
    using position_aligned by (rule appended_aligned_prefix [OF w])
  moreover have "rcur ?r = wend s" by (simp add: rcur_def wend_def)
  ultimately have hp0: "has_prefix (s_buffer ?r) (rcur ?r) (int_bits val @ padding (byte_pos ?s1))"
    by simp
  have rn: "r_byte_pos ?r = int n" using n by simp
  have l: "0 < length (int_bits val)" by (simp add: length_int_bits int_groups_def)
  then have "stream_bit (s_buffer ?r) (rcur ?r + int 0) = (int_bits val @ padding (byte_pos ?s1)) ! 0"
    by (intro hp0 [unfolded has_prefix_def, rule_format]) simp
  then have first: "stream_bit (s_buffer ?r) (rcur ?r) = int_bits val ! 0"
    using l by (simp add: nth_append)
  have rd: "read_int ?r = (if val = 0 then Some (0, snd (read_zero ?r))
             else Some (val, ?r\<lparr>s_position := s_position s + int (length (int_groups val))\<rparr>))"
  proof (cases "val = 0")
    case True
    then have "\<not> stream_bit (s_buffer ?r) (rcur ?r)" using first by (simp add: int_bits_def)
    then obtain r' where "read_zero ?r = (True, r')"
      using read_zero_cases(2) [OF rn n(2)] by blast
    then show ?thesis using True by (simp add: read_int_def)
  next
    case False
    have hp: "has_prefix (s_buffer ?r) (rcur ?r)
        (concat (map bits8 (int_groups_from val 5 @ [ucast (0x80 OR (val AND 0x3f))])) @ padding (byte_pos ?s1))"
      using hp0 False by (simp add: int_bits_def int_groups_def)
    have "stream_bit (s_buffer ?r) (rcur ?r)" using first int_bits_first(1) [OF False] by simp
    then have rz: "read_zero ?r = (False, ?r)" by (rule read_zero_cases(1) [OF rn n(2)])
    have m: "\<forall>g \<in> set (int_groups_from val 5). (ucast g :: jint) AND 0xC0 \<noteq> 0x80"
      using int_groups_from_markers [of val 5] by auto
    have "read_int_loop ?r 0 =
            Some (foldl decode_step 0 (int_groups_from val 5 @ [ucast (0x80 OR (val AND 0x3f))]),
                  ?r\<lparr>s_position := s_position ?r + int (length (int_groups_from val 5)) + 1\<rparr>)"
      by (rule read_int_loop_groups [OF rn n(2) hp m]) (rule marker_final(1))
    then have "read_int ?r = Some (val, ?r\<lparr>s_position := s_position s + int (length (int_groups val))\<rparr>)"
      using decode_int_groups [of val] by (simp add: read_int_def rz int_groups_def)
    then show ?thesis using False by simp
  qed
  have wi: "write_int alloc s val =
           (if val = 0 then write_zero alloc s else foldl (write_byte_impl alloc) s (int_groups val))"
    using write_int_foldl [of val alloc s] by (simp add: write_int_def)
  have rd': "read_int ?r = (if val = 0 then Some (0, snd (read_zero ?r))
             else Some (val, \<lparr>s_buffer = s_buffer ?sF,
                         s_position = s_position s + int (length (int_groups val)),
                         r_byte_pos = byte_pos s\<rparr>))"
    using rd by simp
  show ?thesis
    using wi int_groups_unfold [of val] length_int_groups [of val] int_groups_markers [of val] rd'
    unfolding list_all_iff by blast
qed

text \<open>
  The value 0xFFFFFFFF on a new stream: six groups.
\<close>

theorem write_int_groups_witness:
  "write_int (\<lambda>n i. 0) (CompressedSparseDataWriteStream_new (\<lambda>n i. 0) 100) 0xFFFFFFFF
     = foldl (write_byte_impl (\<lambda>n i. 0)) (CompressedSparseDataWriteStream_new (\<lambda>n i. 0) 100)
         (int_groups 0xFFFFFFFF)
   \<and> length (int_groups 0xFFFFFFFF) \<le> 6"
  using write_int_groups [of "CompressedSparseDataWriteStream_new (\<lambda>n i. 0) 100" "\<lambda>n i. 0" "0xFFFFFFFF"]
  by (simp add: CompressedSparseDataWriteStream_new_def)

section \<open>Runs of zeros\<close>

lemma int_bits_zeros: "concat (replicate N (int_bits 0)) = replicate N False"
  by (induction N) (simp_all add: int_bits_def)

text \<open>
  Claim C5 (zero runs). From a byte-aligned cursor at a position \<open>\<ge> 0\<close>, writing \<open>N\<close>
  zero values with \<open>write_int\<close> and aligning with \<open>position\<close> advances the position by
  exactly \<open>ceil(N / 8) = (N + 7) div 8\<close> bytes, and each of these bytes is 0x00.
\<close>

theorem zero_run_compact:
  assumes "byte_pos s = 0" and "0 \<le> s_position s"
  shows "fst (position alloc (write_ints alloc s (replicate N 0))) = s_position s + (int N + 7) div 8
       \<and> (\<forall>i. s_position s \<le> i \<and> i < fst (position alloc (write_ints alloc s (replicate N 0)))
              \<longrightarrow> s_buffer (snd (position alloc (write_ints alloc s (replicate N 0)))) i = 0)"
proof -
  let ?s1 = "write_ints alloc s (replicate N 0)"
  let ?sF = "snd (position alloc ?s1)"
  let ?pad = "padding (byte_pos ?s1)"
  have w: "winv s" using assms by (simp add: winv_def)
  have a1: "appended s ?s1 (replicate N False)"
    using write_ints_appended [OF w, of alloc "replicate N 0"] by (simp add: int_bits_zeros)
  then have w1: "winv ?s1" and e1: "wend ?s1 = wend s + int N" by (simp_all add: appended_def)
  have a2: "appended ?s1 ?sF ?pad" using w1 by (rule position_appended)
  have a: "appended s ?sF (replicate N False @ ?pad)" by (rule appended_trans [OF w a1 a2])
  have al: "byte_pos ?sF = 0" by (rule position_aligned)
  have hp: "has_prefix (s_buffer ?sF) (wend s) (replicate N False @ ?pad)"
    using a al by (rule appended_aligned_prefix [OF w])
  have eF: "wend ?sF = wend ?s1 + int (length ?pad)" using a2 by (simp add: appended_def)
  have pl: "int (length ?pad) = (if byte_pos ?s1 = 0 then 0 else 8 - byte_pos ?s1)"
    using w1 by (simp add: padding_def winv_def)
  have b1: "0 \<le> byte_pos ?s1" "byte_pos ?s1 < 8" using w1 by (simp_all add: winv_def)
  have "8 * s_position ?sF = 8 * s_position s + int N + int (length ?pad)"
    using eF e1 al assms by (simp add: wend_def)
  moreover have "8 * s_position ?s1 + byte_pos ?s1 = 8 * s_position s + int N"
    using e1 assms by (simp add: wend_def)
  ultimately have pos: "s_position ?sF = s_position s + (int N + 7) div 8"
    using pl b1 by (auto split: if_splits)
  have zero: "s_buffer ?sF i = 0" if i: "s_position s \<le> i" "i < s_position ?sF" for i
  proof (rule bit_word_eqI)
    fix k assume "k < LENGTH(8)"
    then have k: "k < 8" by simp
    define j where "j = nat (8 * (i - s_position s) + int (7 - k))"
    have j: "wend s + int j = 8 * i + int (7 - k)" using i assms by (simp add: j_def wend_def)
    have "wend s + int j < wend ?sF" using i(2) k al unfolding j by (simp add: wend_def)
    then have jl: "j < length (replicate N False @ ?pad)" using eF e1 by simp
    have "stream_bit (s_buffer ?sF) (wend s + int j) = (replicate N False @ ?pad) ! j"
      by (rule hp [unfolded has_prefix_def, rule_format, OF jl])
    also have "\<dots> = False" using jl by (auto simp add: nth_append padding_def split: if_splits)
    finally have "\<not> stream_bit (s_buffer ?sF) (8 * i + int (7 - k))" unfolding j by simp
    moreover have "7 - k < 8" by arith
    ultimately have "\<not> bit (s_buffer ?sF i) (7 - (7 - k))" by (simp add: stream_bit_nat)
    then show "bit (s_buffer ?sF i) k = bit (0 :: u_char) k" using k by simp
  qed
  show ?thesis using pos zero by (simp add: position_fst)
qed

text \<open>
  Eight zeros on a new stream whose memory is filled with 0xAA: one byte, of value 0x00.
\<close>

theorem zero_run_compact_witness:
  "fst (position (\<lambda>n i. 0xAA) (write_ints (\<lambda>n i. 0xAA) (CompressedSparseDataWriteStream_new (\<lambda>n i. 0xAA) 100)
         (replicate 8 0))) = 1
   \<and> s_buffer (snd (position (\<lambda>n i. 0xAA) (write_ints (\<lambda>n i. 0xAA) (CompressedSparseDataWriteStream_new (\<lambda>n i. 0xAA) 100)
         (replicate 8 0)))) 0 = 0"
  using zero_run_compact [of "CompressedSparseDataWriteStream_new (\<lambda>n i. 0xAA) 100" "\<lambda>n i. 0xAA" 8]
  by (simp add: CompressedSparseDataWriteStream_new_def)

section \<open>Reading a group at an aligned cursor\<close>

text \<open>
  Claim C10 (aligned read). With \<open>r_byte_pos = 0\<close>, \<open>read_byte_impl\<close> returns the byte
  at \<open>s_position\<close>: the term \<^verbatim>\<open>_buffer[++_position] >> 8\<close> contributes no bit. Hence for
  any second aligned stream at the same position whose buffer agrees at that one index,
  the returned byte and the resulting cursor (\<open>s_position\<close>, \<open>r_byte_pos\<close>) are the same,
  whatever the other bytes of the two buffers are.
\<close>

theorem read_byte_impl_aligned:
  assumes "r_byte_pos r = 0"
  shows "fst (read_byte_impl r) = s_buffer r (s_position r)
       \<and> (\<forall>r'. r_byte_pos r' = 0 \<and> s_position r' = s_position r
                \<and> s_buffer r' (s_position r') = s_buffer r (s_position r)
              \<longrightarrow> fst (read_byte_impl r') = fst (read_byte_impl r)
                \<and> s_position (snd (read_byte_impl r')) = s_position (snd (read_byte_impl r))
                \<and> r_byte_pos (snd (read_byte_impl r')) = r_byte_pos (snd (read_byte_impl r)))"
proof -
  have "read_byte_impl r' = (s_buffer r' (s_position r'), r'\<lparr>s_position := s_position r' + 1\<rparr>)"
    if "r_byte_pos r' = 0" for r'
    using that read_byte_impl_eq [of r' 0] by simp
  then show ?thesis using assms by auto
qed

text \<open>
  Two buffers that agree at index 0 and differ everywhere else: both reads return 0x81.
\<close>

theorem read_byte_impl_aligned_witness:
  "fst (read_byte_impl \<lparr>s_buffer = (\<lambda>i. if i = 0 then 0x81 else 0xFF), s_position = 0, r_byte_pos = 0\<rparr>) = 0x81
   \<and> fst (read_byte_impl \<lparr>s_buffer = (\<lambda>i. if i = 0 then 0x81 else 0x00), s_position = 0, r_byte_pos = 0\<rparr>) = 0x81"
  by (simp add: read_byte_impl_aligned [THEN conjunct1])

section \<open>Concrete encodings\<close>

lemma foldl_write_byte_impl_aligned_all:
  "byte_pos s = 0 \<Longrightarrow> 0 \<le> s_position s \<Longrightarrow>
     byte_pos (foldl (write_byte_impl alloc) s gs) = 0
     \<and> s_position (foldl (write_byte_impl alloc) s gs) = s_position s + int (length gs)
     \<and> (\<forall>j < length gs. s_buffer (foldl (write_byte_impl alloc) s gs) (s_position s + int j) = gs ! j)
     \<and> (\<forall>i. 0 \<le> i \<and> i < s_position s \<longrightarrow> s_buffer (foldl (write_byte_impl alloc) s gs) i = s_buffer s i)"
proof (induction gs arbitrary: s)
  case Nil
  then show ?case by simp
next
  case (Cons g gs)
  let ?s = "write_byte_impl alloc s g"
  let ?t = "foldl (write_byte_impl alloc) ?s gs"
  have n: "byte_pos s = int 0" "(0::nat) < 8" using Cons.prems by simp_all
  have f1: "s_position ?s = s_position s + 1" by (rule write_byte_impl_fields(1) [OF n])
  have f2: "byte_pos ?s = 0" using write_byte_impl_fields(2) [OF n, of alloc g] by simp
  have f4: "s_buffer ?s (s_position s) = g" using write_byte_impl_fields(4) [OF n, of alloc g] by simp
  have f5: "s_buffer ?s i = s_buffer s i" if "0 \<le> i" "i < s_position s" for i
    using that by (rule write_byte_impl_fields(5) [OF n])
  have p: "0 \<le> s_position ?s" using f1 Cons.prems by simp
  have ih1: "byte_pos ?t = 0"
    and ih2: "s_position ?t = s_position ?s + int (length gs)"
    and ih3: "\<forall>j < length gs. s_buffer ?t (s_position ?s + int j) = gs ! j"
    and ih4: "\<forall>i. 0 \<le> i \<and> i < s_position ?s \<longrightarrow> s_buffer ?t i = s_buffer ?s i"
    using Cons.IH [OF f2 p] by blast+
  have c2: "s_position ?t = s_position s + int (length (g # gs))" using ih2 f1 by simp
  have c3: "s_buffer ?t (s_position s + int j) = (g # gs) ! j" if j: "j < length (g # gs)" for j
  proof (cases j)
    case 0
    have "s_buffer ?t (s_position s) = s_buffer ?s (s_position s)"
      using ih4 Cons.prems(2) f1 by simp
    then show ?thesis using 0 f4 by simp
  next
    case (Suc k)
    then have "k < length gs" using j by simp
    then have "s_buffer ?t (s_position ?s + int k) = gs ! k" using ih3 by blast
    moreover have eq: "s_position s + int j = s_position ?s + int k" using Suc f1 by simp
    moreover have "(g # gs) ! j = gs ! k" using Suc by simp
    ultimately show ?thesis by (simp only:)
  qed
  have c4: "s_buffer ?t i = s_buffer s i" if i: "0 \<le> i" "i < s_position s" for i
  proof -
    have "s_buffer ?t i = s_buffer ?s i" using ih4 i f1 by simp
    then show ?thesis using f5 [OF i] by simp
  qed
  have "foldl (write_byte_impl alloc) s (g # gs) = ?t" by simp
  then show ?case using ih1 c2 c3 c4 by (simp only:) blast
qed

lemma write_int_aligned:
  assumes "val \<noteq> 0" "byte_pos s = 0" "0 \<le> s_position s"
  shows "fst (position alloc (write_int alloc s val)) = s_position s + int (length (int_groups val))"
    and "\<And>j. j < length (int_groups val) \<Longrightarrow>
           s_buffer (snd (position alloc (write_int alloc s val))) (s_position s + int j) = int_groups val ! j"
proof -
  define t where "t = write_int alloc s val"
  have t: "t = foldl (write_byte_impl alloc) s (int_groups val)"
    unfolding t_def by (rule write_int_foldl [OF assms(1)])
  note f = foldl_write_byte_impl_aligned_all [OF assms(2,3), of alloc "int_groups val", folded t]
  have b: "byte_pos t = 0" using f by blast
  then have p: "position alloc t = (s_position t, t)" by (simp add: position_def)
  show "fst (position alloc (write_int alloc s val)) = s_position s + int (length (int_groups val))"
    using f p unfolding t_def by simp
  show "s_buffer (snd (position alloc (write_int alloc s val))) (s_position s + int j) = int_groups val ! j"
    if "j < length (int_groups val)" for j
    using f p that unfolding t_def by simp
qed

text \<open>
  Claim C3 (encoding of 0xFF). On a new stream of any capacity, \<open>write_int\<close> of 0xFF
  followed by \<open>position\<close> leaves the position at 2 and the bytes C3 BF in the buffer:
  the group \<open>11 000011\<close> for the bits above the low six, then the final group
  \<open>10 111111\<close>. The bytes are not FF 03.
\<close>

theorem write_int_0xFF:
  "fst (position alloc (write_int alloc (CompressedSparseDataWriteStream_new alloc initial_size) 0xFF)) = 2
   \<and> s_buffer (snd (position alloc (write_int alloc (CompressedSparseDataWriteStream_new alloc initial_size) 0xFF))) 0 = 0xC3
   \<and> s_buffer (snd (position alloc (write_int alloc (CompressedSparseDataWriteStream_new alloc initial_size) 0xFF))) 1 = 0xBF"
proof -
  let ?s = "CompressedSparseDataWriteStream_new alloc initial_size"
  have g: "int_groups 0xFF = [0xC3, 0xBF]" by (simp add: int_groups_unfold)
  have s: "byte_pos ?s = 0" "0 \<le> s_position ?s"
    by (simp_all add: CompressedSparseDataWriteStream_new_def)
  have z: "s_position ?s = 0" by (simp add: CompressedSparseDataWriteStream_new_def)
  have v: "(0xFF :: juint) \<noteq> 0" by simp
  note f = write_int_aligned [OF v s, where alloc=alloc, unfolded z g]
  show ?thesis using f(1) f(2) [of 0] f(2) [of 1] by simp
qed

text \<open>
  Claim C2 (encoding of 0xFFFFFFFF). On a new stream of any capacity, and whatever the
  allocations hold, \<open>write_int\<close> of 0xFFFFFFFF followed by \<open>position\<close> leaves the position
  at 6 and the six bytes C3 FF FF FF FF BF in the buffer: five non-final groups and the
  final one. The value takes six bytes, not five, and the first byte is not 0xFF.
\<close>

theorem write_int_0xFFFFFFFF:
  "fst (position alloc (write_int alloc (CompressedSparseDataWriteStream_new alloc initial_size) 0xFFFFFFFF)) = 6
   \<and> map (s_buffer (snd (position alloc (write_int alloc (CompressedSparseDataWriteStream_new alloc initial_size) 0xFFFFFFFF))))
        [0, 1, 2, 3, 4, 5] = [0xC3, 0xFF, 0xFF, 0xFF, 0xFF, 0xBF]"
proof -
  let ?s = "CompressedSparseDataWriteStream_new alloc initial_size"
  have g: "int_groups 0xFFFFFFFF = [0xC3, 0xFF, 0xFF, 0xFF, 0xFF, 0xBF]" by (simp add: int_groups_unfold)
  have s: "byte_pos ?s = 0" "0 \<le> s_position ?s"
    by (simp_all add: CompressedSparseDataWriteStream_new_def)
  have z: "s_position ?s = 0" by (simp add: CompressedSparseDataWriteStream_new_def)
  have v: "(0xFFFFFFFF :: juint) \<noteq> 0" by simp
  note f = write_int_aligned [OF v s, where alloc=alloc, unfolded z g]
  show ?thesis using f(1) f(2) [of 0] f(2) [of 1] f(2) [of 2] f(2) [of 3] f(2) [of 4] f(2) [of 5] by simp
qed

section \<open>Derived encodings of the byte-aligned codec\<close>

lemma jlong_from_high_low: "jlong_from (high v) (low v) = v"
  unfolding jlong_from_def high_def low_def
proof (rule bit_word_eqI)
  fix n assume "n < LENGTH(64)"
  then have n: "n < 64" by simp
  show "bit (push_bit 32 (ucast (ucast (drop_bit 32 v) :: jint)) OR ucast (ucast v :: jint) :: jlong) n = bit v n"
  proof (cases "n < 32")
    case True
    then show ?thesis by (simp add: bit_simps)
  next
    case False
    then have "32 + (n - 32) = n" by simp
    then show ?thesis using False n by (auto simp add: bit_simps)
  qed
qed

lemma two_writes_read_back:
  assumes rt: "unsigned_round_trip write_uint read_uint" and p: "0 \<le> s_position s"
  shows "read_uint \<lparr>s_buffer = s_buffer (write_uint (write_uint s a) b), s_position = s_position s\<rparr>
           = (a, \<lparr>s_buffer = s_buffer (write_uint (write_uint s a) b),
                  s_position = s_position (write_uint s a)\<rparr>)"
    and "read_uint \<lparr>s_buffer = s_buffer (write_uint (write_uint s a) b),
                    s_position = s_position (write_uint s a)\<rparr>
           = (b, \<lparr>s_buffer = s_buffer (write_uint (write_uint s a) b),
                  s_position = s_position (write_uint (write_uint s a) b)\<rparr>)"
proof -
  let ?s1 = "write_uint s a"
  let ?s2 = "write_uint ?s1 b"
  have m1: "s_position s \<le> s_position ?s1"
    using rt p unfolding unsigned_round_trip_def by blast
  then have p1: "0 \<le> s_position ?s1" using p by simp
  have frame2: "s_buffer ?s2 i = s_buffer ?s1 i" if "0 \<le> i" "i < s_position ?s1" for i
    using rt p1 that unfolding unsigned_round_trip_def by blast
  have "\<forall>i. s_position s \<le> i \<and> i < s_position ?s1 \<longrightarrow> s_buffer ?s2 i = s_buffer ?s1 i"
    using frame2 p by simp
  then show "read_uint \<lparr>s_buffer = s_buffer ?s2, s_position = s_position s\<rparr>
           = (a, \<lparr>s_buffer = s_buffer ?s2, s_position = s_position ?s1\<rparr>)"
    using rt p unfolding unsigned_round_trip_def by blast
  have "\<forall>i. s_position ?s1 \<le> i \<and> i < s_position ?s2 \<longrightarrow> s_buffer ?s2 i = s_buffer ?s2 i"
    by simp
  then show "read_uint \<lparr>s_buffer = s_buffer ?s2, s_position = s_position ?s1\<rparr>
           = (b, \<lparr>s_buffer = s_buffer ?s2, s_position = s_position ?s2\<rparr>)"
    using rt p1 unfolding unsigned_round_trip_def by blast
qed

text \<open>
  Claim C7 (doubles in the byte-aligned codec). \<open>write_double\<close> splits the 64-bit
  pattern into its high and low 32-bit halves, reverses the bits of each half and writes
  the reversed high half, then the reversed low half, with \<open>write_int\<close>; its two
  assertions hold. \<open>read_double\<close> reads two values in the same order, reverses each and
  joins them high:low. If the unsigned primitive round-trips (\<open>unsigned_round_trip\<close>)
  and \<open>reverse_bits\<close> is an involution, then reading at the position where writing
  began, on the buffer as it is after the write, returns the original pattern, for every
  64-bit pattern, and leaves the reader at the writer's position.
\<close>

theorem write_double_round_trip:
  assumes "unsigned_round_trip write_uint read_uint"
    and "\<forall>x. reverse_bits (reverse_bits x) = x"
    and "0 \<le> s_position s"
  shows "\<exists>s'. write_double write_uint reverse_bits s value = Some s'
            \<and> s' = write_uint (write_uint s (reverse_bits (high (jlong_cast value))))
                       (reverse_bits (low (jlong_cast value)))
            \<and> read_double read_uint reverse_bits \<lparr>s_buffer = s_buffer s', s_position = s_position s\<rparr>
                = (value, \<lparr>s_buffer = s_buffer s', s_position = s_position s'\<rparr>)"
proof -
  let ?rh = "reverse_bits (high value)"
  let ?rl = "reverse_bits (low value)"
  let ?s' = "write_uint (write_uint s ?rh) ?rl"
  have w: "write_double write_uint reverse_bits s value = Some ?s'"
    using assms(2) by (simp add: write_double_def Let_def jlong_cast_def)
  note r = two_writes_read_back [OF assms(1,3), of ?rh ?rl]
  have "read_double read_uint reverse_bits \<lparr>s_buffer = s_buffer ?s', s_position = s_position s\<rparr>
          = (value, \<lparr>s_buffer = s_buffer ?s', s_position = s_position ?s'\<rparr>)"
    using assms(2) by (simp add: read_double_def r Let_def jlong_from_high_low jdouble_cast_def)
  with w show ?thesis by (simp add: jlong_cast_def)
qed

text \<open>
  Claim C8 (longs in the byte-aligned codec). \<open>write_long\<close> writes the low 32-bit half
  of the two's-complement value, then the high half, each with \<open>write_signed_int\<close>
  (\<open>encode_sign\<close>, then \<open>write_int\<close>); \<open>read_long\<close> reads the low half, then the high
  half with \<open>read_signed_int\<close> and joins them. If the unsigned primitive round-trips and
  \<open>decode_sign\<close> inverts \<open>encode_sign\<close>, then reading at the position where writing
  began returns the original value, for every 64-bit value.
\<close>

theorem write_long_round_trip:
  assumes "unsigned_round_trip write_uint read_uint"
    and "\<forall>x. decode_sign (encode_sign x) = x"
    and "0 \<le> s_position s"
  shows "write_long encode_sign write_uint s value
           = write_uint (write_uint s (encode_sign (low value))) (encode_sign (high value))
       \<and> read_long decode_sign read_uint
           \<lparr>s_buffer = s_buffer (write_long encode_sign write_uint s value), s_position = s_position s\<rparr>
         = (value, \<lparr>s_buffer = s_buffer (write_long encode_sign write_uint s value),
                     s_position = s_position (write_long encode_sign write_uint s value)\<rparr>)"
proof -
  note r = two_writes_read_back [OF assms(1,3), of "encode_sign (low value)" "encode_sign (high value)"]
  show ?thesis
    using assms(2)
    by (simp add: read_long_def read_signed_int_def write_long_def write_signed_int_def r Let_def
         jlong_from_high_low)
qed

section \<open>The instances satisfy the assumptions\<close>

lemma bit_double_jint:
  "bit (x * 2 :: jint) k = (0 < k \<and> k < 32 \<and> bit x (k - 1))"
proof -
  have "x * 2 = push_bit 1 x" by simp
  then show ?thesis by (auto simp only: bit_push_bit_iff possible_bit_word len_of_numeral_defs)+
qed

lemma zigzag_low_bit: "zigzag_encode x AND 1 = of_bool (bit x 31)"
proof -
  have "bit (zigzag_encode x) 0 = bit x 31"
    by (simp add: zigzag_encode_def bit_simps bit_signed_drop_bit_iff bit_double_jint)
  then show ?thesis by (simp add: and_one_eq mod_2_eq_odd bit_0)
qed

lemma zigzag_inverse: "zigzag_decode (zigzag_encode x) = x"
proof (cases "bit x 31")
  case True
  have "zigzag_encode x AND 1 = 1" using True by (simp add: zigzag_low_bit)
  then have "zigzag_decode (zigzag_encode x) = NOT (drop_bit 1 (zigzag_encode x))"
    by (simp add: zigzag_decode_def)
  also have "\<dots> = x"
    unfolding zigzag_encode_def using True
    apply (intro bit_word_eqI)
    subgoal for n
      by (cases "n = 31") (auto simp add: bit_simps bit_signed_drop_bit_iff bit_double_jint dest: bit_imp_le_length)
    done
  finally show ?thesis .
next
  case False
  have "zigzag_encode x AND 1 = 0" using False by (simp add: zigzag_low_bit)
  then have "zigzag_decode (zigzag_encode x) = drop_bit 1 (zigzag_encode x)"
    by (simp add: zigzag_decode_def)
  also have "\<dots> = x"
    unfolding zigzag_encode_def using False
    apply (intro bit_word_eqI)
    subgoal for n
      by (cases "n = 31") (auto simp add: bit_simps bit_signed_drop_bit_iff bit_double_jint dest: bit_imp_le_length)
    done
  finally show ?thesis .
qed

lemma fixed_frame:
  assumes "0 \<le> s_position s"
  shows "s_position (fixed_write_uint s v) = s_position s + 4"
    and "\<And>i. 0 \<le> i \<Longrightarrow> i < s_position s \<Longrightarrow> s_buffer (fixed_write_uint s v) i = s_buffer s i"
    and "s_buffer (fixed_write_uint s v) (s_position s) = ucast (drop_bit 24 v)"
    and "s_buffer (fixed_write_uint s v) (s_position s + 1) = ucast (drop_bit 16 v)"
    and "s_buffer (fixed_write_uint s v) (s_position s + 2) = ucast (drop_bit 8 v)"
    and "s_buffer (fixed_write_uint s v) (s_position s + 3) = ucast v"
  using assms by (simp_all add: fixed_write_uint_def Let_def)

lemma join_bytes:
  "push_bit 24 (ucast (ucast (drop_bit 24 v) :: u_char)) OR push_bit 16 (ucast (ucast (drop_bit 16 v) :: u_char))
     OR push_bit 8 (ucast (ucast (drop_bit 8 v) :: u_char)) OR ucast (ucast v :: u_char) = (v :: juint)"
proof (rule bit_word_eqI)
  fix n assume "n < LENGTH(32)"
  then have "n < 8 \<or> (8 \<le> n \<and> n < 16) \<or> (16 \<le> n \<and> n < 24) \<or> (24 \<le> n \<and> n < 32)"
    by auto
  then show "bit (push_bit 24 (ucast (ucast (drop_bit 24 v) :: u_char)) OR push_bit 16 (ucast (ucast (drop_bit 16 v) :: u_char))
     OR push_bit 8 (ucast (ucast (drop_bit 8 v) :: u_char)) OR ucast (ucast v :: u_char) :: juint) n = bit v n"
    by (elim disjE) (auto simp add: bit_simps)
qed

lemma fixed_round_trip: "unsigned_round_trip fixed_write_uint fixed_read_uint"
  unfolding unsigned_round_trip_def
proof (intro allI impI conjI)
  fix s :: CompressedWriteStream and v :: juint
  assume p: "0 \<le> s_position s"
  show "s_position s \<le> s_position (fixed_write_uint s v)" using fixed_frame(1) [OF p] by simp
next
  fix s :: CompressedWriteStream and v :: juint and i
  assume p: "0 \<le> s_position s" and "0 \<le> i \<and> i < s_position s"
  then show "s_buffer (fixed_write_uint s v) i = s_buffer s i" using fixed_frame(2) [OF p] by simp
next
  fix s :: CompressedWriteStream and v :: juint and buf
  assume p: "0 \<le> s_position s"
    and a: "\<forall>i. s_position s \<le> i \<and> i < s_position (fixed_write_uint s v)
               \<longrightarrow> buf i = s_buffer (fixed_write_uint s v) i"
  note f = fixed_frame [OF p, where v=v]
  have "buf (s_position s) = ucast (drop_bit 24 v)" "buf (s_position s + 1) = ucast (drop_bit 16 v)"
       "buf (s_position s + 2) = ucast (drop_bit 8 v)" "buf (s_position s + 3) = ucast v"
    using a f by simp_all
  then show "fixed_read_uint \<lparr>s_buffer = buf, s_position = s_position s\<rparr>
               = (v, \<lparr>s_buffer = buf, s_position = s_position (fixed_write_uint s v)\<rparr>)"
    using f(1) by (simp add: fixed_read_uint_def Let_def join_bytes)
qed

text \<open>
  The pattern of the double 1.0 with \<open>word_reverse\<close> and a fixed-width big-endian
  primitive.
\<close>

theorem write_double_round_trip_witness:
  "\<exists>s'. write_double fixed_write_uint word_reverse (CompressedWriteStream_new (\<lambda>n i. 0) 4) 0x3FF0000000000000 = Some s'
      \<and> read_double fixed_read_uint word_reverse
            \<lparr>s_buffer = s_buffer s', s_position = s_position (CompressedWriteStream_new (\<lambda>n i. 0) 4)\<rparr>
          = (0x3FF0000000000000, \<lparr>s_buffer = s_buffer s', s_position = s_position s'\<rparr>)"
proof -
  have p: "0 \<le> s_position (CompressedWriteStream_new (\<lambda>n i. 0) 4)"
    by (simp add: CompressedWriteStream_new_def)
  have i: "\<forall>x :: juint. word_reverse (word_reverse x) = x" by (simp add: word_rev_rev)
  show ?thesis
    using write_double_round_trip [OF fixed_round_trip i p, of "0x3FF0000000000000"] by blast
qed

text \<open>
  The value \<open>-2\<close> with the zig-zag sign folding and a fixed-width big-endian primitive.
\<close>

theorem write_long_round_trip_witness:
  "read_long zigzag_decode fixed_read_uint
     \<lparr>s_buffer = s_buffer (write_long zigzag_encode fixed_write_uint (CompressedWriteStream_new (\<lambda>n i. 0) 4) (- 2)),
      s_position = s_position (CompressedWriteStream_new (\<lambda>n i. 0) 4)\<rparr>
   = (- 2, \<lparr>s_buffer = s_buffer (write_long zigzag_encode fixed_write_uint (CompressedWriteStream_new (\<lambda>n i. 0) 4) (- 2)),
             s_position = s_position (write_long zigzag_encode fixed_write_uint (CompressedWriteStream_new (\<lambda>n i. 0) 4) (- 2))\<rparr>)"
proof -
  have p: "0 \<le> s_position (CompressedWriteStream_new (\<lambda>n i. 0) 4)"
    by (simp add: CompressedWriteStream_new_def)
  have i: "\<forall>x. zigzag_decode (zigzag_encode x) = x" by (simp add: zigzag_inverse)
  show ?thesis
    using write_long_round_trip [of fixed_write_uint fixed_read_uint zigzag_decode zigzag_encode
        "CompressedWriteStream_new (\<lambda>n i. 0) 4" "- 2", OF fixed_round_trip i p]
    by blast
qed

end
